theory Spec2Isabelle
  imports Complex_Main "HOL-Library.Multiset"
begin

section \<open>Data model (src/src/types/database.ts, src/src/types/segment.ts, types/roll.ts)\<close>

text \<open>
  A blob is an opaque payload. Metadata is an open record of string keys; the values that
  the code inspects are compared with strict equality, so they are modelled as the
  primitive JavaScript values. A key that is absent reads as \<open>VUndefined\<close>.
  Queue positions and ids are integers (the store's key generator hands out positive
  integers; positions are counts and clamped counts).
\<close>

type_synonym blob = string

datatype val = VUndefined | VNull | VBool bool | VNum int | VStr string

type_synonym QueueItemMetadata = "string \<rightharpoonup> val"

record QueueItem =
  item_id :: nat
  blob :: "blob option"
  queueIndex :: int
  metadata :: QueueItemMetadata

text \<open>
  The object store: its rows in primary-key order, and the auto-increment key generator.
\<close>

record Playlist =
  items :: "QueueItem list"
  keyGenerator :: nat

datatype error = NotFound nat | InvalidIndices | LengthMismatch

definition emptyPlaylist :: Playlist where
  "emptyPlaylist = \<lparr>items = [], keyGenerator = 1\<rparr>"

section \<open>Ordered store operations (src/src/playlist.ts)\<close>

text \<open>
  \<open>shiftQueueIndices\<close>: the cursor walks the rows whose position is at least
  \<open>fromIndex\<close> and rewrites each with its position moved by \<open>shift\<close>. The database is
  taken as a transactional store in which the cursor meets each row of the range once and
  the shift is complete when the transaction is: a row the cursor has rewritten is not met
  again at its new position.
\<close>

definition shiftQueueIndices :: "int \<Rightarrow> int \<Rightarrow> QueueItem list \<Rightarrow> QueueItem list" where
  "shiftQueueIndices fromIndex shift its =
     map (\<lambda>item. if queueIndex item \<ge> fromIndex
                  then item\<lparr>queueIndex := queueIndex item + shift\<rparr> else item) its"

text \<open>
  \<open>add\<close>: \<open>maxIndex\<close> is the row count; the position is the clamped \<open>insertIndex\<close>, or
  the count when none is given; the shift runs from the unclamped \<open>insertIndex\<close> when it
  is below the count; the new row receives the next generated key, which is returned.
\<close>

definition add :: "blob \<Rightarrow> QueueItemMetadata \<Rightarrow> int option \<Rightarrow> Playlist \<Rightarrow> Playlist \<times> nat" where
  "add b md insertIndex s =
     (let maxIndex = int (length (items s));
          qi = (case insertIndex of
                  Some i \<Rightarrow> max 0 (min i maxIndex)
                | None \<Rightarrow> maxIndex);
          shifted = (case insertIndex of
                  Some i \<Rightarrow> if i < maxIndex then shiftQueueIndices i 1 (items s) else items s
                | None \<Rightarrow> items s);
          newId = keyGenerator s;
          item = \<lparr>item_id = newId, blob = Some b, queueIndex = qi, metadata = md\<rparr>
      in (\<lparr>items = shifted @ [item], keyGenerator = Suc newId\<rparr>, newId))"

definition getItem :: "nat \<Rightarrow> Playlist \<Rightarrow> QueueItem option" where
  "getItem i s = find (\<lambda>x. item_id x = i) (items s)"

text \<open>
  \<open>getAll\<close>: the rows read through the position index (position, then key) and sorted by
  position with a stable sort.
\<close>

definition getAll :: "Playlist \<Rightarrow> QueueItem list" where
  "getAll s = sort_key queueIndex (items s)"

definition length_store :: "Playlist \<Rightarrow> nat" where
  "length_store s = length (items s)"

text \<open>\<open>store.put\<close>: replaces the row with the same key, or files a new row by key.\<close>

definition put :: "QueueItem \<Rightarrow> QueueItem list \<Rightarrow> QueueItem list" where
  "put item its =
     (if item_id item \<in> item_id ` set its
      then map (\<lambda>x. if item_id x = item_id item then item else x) its
      else insort_key item_id item its)"






text \<open>Keys are pairwise distinct and below the key generator.\<close>

definition keys_ok :: "Playlist \<Rightarrow> bool" where
  "keys_ok s \<longleftrightarrow>
     distinct (map item_id (items s)) \<and> (\<forall>i \<in> set (map item_id (items s)). i < keyGenerator s)"



section \<open>Stream sink (src/src/playout-buffer.ts)\<close>

text \<open>
  JavaScript numbers that reach the sink as times: not-a-number, the two infinities and the
  finite values. \<open>num_le\<close> is \<open><=\<close> and \<open>num_max\<close> is \<open>Math.max\<close>.
\<close>

datatype jsnum = NaN | NegInf | Fin rat | PosInf

fun num_le :: "jsnum \<Rightarrow> jsnum \<Rightarrow> bool" where
  "num_le NaN _ = False"
| "num_le _ NaN = False"
| "num_le NegInf _ = True"
| "num_le _ PosInf = True"
| "num_le (Fin a) (Fin b) = (a \<le> b)"
| "num_le (Fin a) NegInf = False"
| "num_le PosInf (Fin b) = False"
| "num_le PosInf NegInf = False"

fun num_max :: "jsnum \<Rightarrow> jsnum \<Rightarrow> jsnum" where
  "num_max NaN _ = NaN"
| "num_max _ NaN = NaN"
| "num_max PosInf _ = PosInf"
| "num_max _ PosInf = PosInf"
| "num_max NegInf b = b"
| "num_max a NegInf = a"
| "num_max (Fin a) (Fin b) = Fin (max a b)"

type_synonym data = string

record variant =
  stream_id :: val
  init :: "data option"

record Segment =
  seg_id :: val
  seg_data :: "data option"
  seg_variant :: "variant option"

record QueuedSegment =
  q_id :: val
  q_data :: data
  q_variant :: "variant option"
  isInit :: bool

text \<open>
  The SourceBuffer is an external collaborator: its state is a type parameter, and its
  behaviour is the three operations the code uses. \<open>appendBuffer\<close> and \<open>remove\<close> either
  throw (\<open>None\<close>) or return the buffer after the request was taken.
\<close>

record 's SourceBuffer =
  updating :: "'s \<Rightarrow> bool"
  appendBuffer :: "'s \<Rightarrow> data \<Rightarrow> 's option"
  sb_remove :: "'s \<Rightarrow> jsnum \<Rightarrow> jsnum \<Rightarrow> 's option"

record 's PlayoutBuffer =
  source :: "'s option"
  queue :: "QueuedSegment list"
  lastSegmentId :: "val option"
  pendingTrimRanges :: "(jsnum \<times> jsnum) list"

text \<open>
  The append loop of \<open>flush\<close>: for each element of the snapshot of the queue, stop if the
  buffer is busy; take the head of the queue; append it; on success record its id unless it
  is an init entry; on a throw put it back at the front and stop. It returns the buffer,
  what is left of the queue and the last recorded id.
\<close>

fun drain :: "'s SourceBuffer \<Rightarrow> 's \<Rightarrow> QueuedSegment list \<Rightarrow> val option
                \<Rightarrow> 's \<times> QueuedSegment list \<times> val option" where
  "drain sb src [] lastId = (src, [], lastId)"
| "drain sb src (queued # rest) lastId =
     (if updating sb src then (src, queued # rest, lastId)
      else case appendBuffer sb src (q_data queued) of
             None \<Rightarrow> (src, queued # rest, lastId)
           | Some src' \<Rightarrow> drain sb src' rest (if isInit queued then lastId else Some (q_id queued)))"

definition drainQueue :: "'s SourceBuffer \<Rightarrow> 's \<Rightarrow> 's PlayoutBuffer \<Rightarrow> 's PlayoutBuffer" where
  "drainQueue sb src st =
     (case drain sb src (queue st) (lastSegmentId st) of
        (src', rest, lastId) \<Rightarrow> st\<lparr>source := Some src', queue := rest, lastSegmentId := lastId\<rparr>)"

definition flush :: "'s SourceBuffer \<Rightarrow> 's PlayoutBuffer \<Rightarrow> 's PlayoutBuffer" where
  "flush sb st =
     (case source st of
        None \<Rightarrow> st
      | Some src \<Rightarrow>
          if updating sb src then st
          else case pendingTrimRanges st of
                 r # ranges \<Rightarrow>
                   (case sb_remove sb src (fst r) (snd r) of
                      Some src' \<Rightarrow> st\<lparr>source := Some src', pendingTrimRanges := ranges\<rparr>
                    | None \<Rightarrow> drainQueue sb src (st\<lparr>pendingTrimRanges := ranges\<rparr>))
               | [] \<Rightarrow> drainQueue sb src st)"

definition trim :: "'s SourceBuffer \<Rightarrow> jsnum \<Rightarrow> jsnum \<Rightarrow> 's PlayoutBuffer \<Rightarrow> 's PlayoutBuffer" where
  "trim sb startT endT st =
     (if startT = NaN \<or> endT = NaN then st
      else let safeStart = num_max (Fin 0) startT;
               safeEnd = num_max safeStart endT
           in if num_le safeEnd safeStart then st
              else flush sb (st\<lparr>pendingTrimRanges := pendingTrimRanges st @ [(safeStart, safeEnd)]\<rparr>))"

definition enqueue :: "'s SourceBuffer \<Rightarrow> Segment \<Rightarrow> 's PlayoutBuffer \<Rightarrow> 's PlayoutBuffer" where
  "enqueue sb segment st =
     (let st1 = (case seg_variant segment of
                   None \<Rightarrow> st
                 | Some v \<Rightarrow>
                     (case init v of
                        None \<Rightarrow> st
                      | Some i \<Rightarrow> st\<lparr>queue := queue st @
                          [\<lparr>q_id = seg_id segment, q_data = i, q_variant = Some v, isInit = True\<rparr>]\<rparr>))
      in case seg_data segment of
           None \<Rightarrow> st1
         | Some d \<Rightarrow> flush sb (st1\<lparr>queue := queue st1 @
               [\<lparr>q_id = seg_id segment, q_data = d, q_variant = seg_variant segment, isInit = False\<rparr>]\<rparr>))"

text \<open>
  What the buffer has become after it took a list of appends in order, if it took them all.
\<close>

fun appendAll :: "'s SourceBuffer \<Rightarrow> 's \<Rightarrow> QueuedSegment list \<Rightarrow> 's option" where
  "appendAll sb src [] = Some src"
| "appendAll sb src (q # qs) =
     (if updating sb src then None
      else case appendBuffer sb src (q_data q) of None \<Rightarrow> None | Some src' \<Rightarrow> appendAll sb src' qs)"

text \<open>The id recorded after a list of appends: that of the last entry that is not an init entry.\<close>

fun lastDelivered :: "val option \<Rightarrow> QueuedSegment list \<Rightarrow> val option" where
  "lastDelivered lastId [] = lastId"
| "lastDelivered lastId (q # qs) = lastDelivered (if isInit q then lastId else Some (q_id q)) qs"

text \<open>
  A sink for concrete runs: it logs the payloads it took, is busy after each request until
  the completion event, and refuses a removal while it holds nothing.
\<close>

record logSink =
  busy :: bool
  appended :: "data list"
  removed :: "(jsnum \<times> jsnum) list"

definition logBuffer :: "logSink SourceBuffer" where
  "logBuffer = \<lparr>updating = busy,
                appendBuffer = (\<lambda>s d. if busy s then None
                                       else Some (s\<lparr>busy := True, appended := appended s @ [d]\<rparr>)),
                sb_remove = (\<lambda>s a b. if busy s \<or> appended s = [] then None
                                      else Some (s\<lparr>busy := True, removed := removed s @ [(a, b)]\<rparr>))\<rparr>"

text \<open>The \<open>updateend\<close> event: the buffer has finished its request and \<open>flush\<close> runs.\<close>

definition updateend :: "logSink PlayoutBuffer \<Rightarrow> logSink PlayoutBuffer" where
  "updateend st = flush logBuffer (st\<lparr>source := map_option (\<lambda>s. s\<lparr>busy := False\<rparr>) (source st)\<rparr>)"

text \<open>Concrete buffers and a concrete segment for the runs below.\<close>

definition st_c6 :: "logSink PlayoutBuffer" where
  "st_c6 = \<lparr>source = Some \<lparr>busy = False, appended = [], removed = []\<rparr>,
            queue = [\<lparr>q_id = VNum 0, q_data = ''d'', q_variant = None, isInit = False\<rparr>],
            lastSegmentId = None, pendingTrimRanges = [(Fin 0, Fin 1)]\<rparr>"

definition st_idle :: "logSink PlayoutBuffer" where
  "st_idle = \<lparr>source = Some \<lparr>busy = False, appended = [''h''], removed = []\<rparr>,
             queue = [\<lparr>q_id = VNum 7, q_data = ''i'', q_variant = None, isInit = True\<rparr>,
                      \<lparr>q_id = VNum 7, q_data = ''d'', q_variant = None, isInit = False\<rparr>],
             lastSegmentId = None, pendingTrimRanges = []\<rparr>"

definition st_closed :: "logSink PlayoutBuffer" where
  "st_closed = \<lparr>source = None, queue = [], lastSegmentId = None, pendingTrimRanges = []\<rparr>"

definition seg_main :: Segment where
  "seg_main = \<lparr>seg_id = VNum 0, seg_data = Some ''d'',
               seg_variant = Some \<lparr>stream_id = VStr ''main-stream'', init = Some ''i''\<rparr>\<rparr>"

definition st_open :: "logSink PlayoutBuffer" where
  "st_open = \<lparr>source = Some \<lparr>busy = False, appended = [], removed = []\<rparr>,
             queue = [], lastSegmentId = None, pendingTrimRanges = []\<rparr>"

section \<open>Item updates (src/src/playlist.ts)\<close>

text \<open>Reading a metadata key: an absent key reads as \<open>undefined\<close>.\<close>

definition mget :: "QueueItemMetadata \<Rightarrow> string \<Rightarrow> val" where
  "mget md k = (case md k of None \<Rightarrow> VUndefined | Some v \<Rightarrow> v)"

text \<open>
  \<open>Partial<QueueItem>\<close> as \<open>updateItem\<close> receives it: each field is present or not. The
  key of a row is not among the fieldNames that callers update.
\<close>

record ItemUpdates =
  u_blob :: "blob option"
  u_queueIndex :: "int option"
  u_metadata :: "QueueItemMetadata option"

text \<open>
  \<open>updateItem\<close>: the stored row overlaid with the supplied fieldNames; supplied metadata is
  spread over the stored metadata (\<open>{...item.metadata, ...updates.metadata}\<close>).
\<close>

definition updateItem :: "nat \<Rightarrow> ItemUpdates \<Rightarrow> Playlist \<Rightarrow> error + Playlist" where
  "updateItem i updates s =
     (case getItem i s of
        None \<Rightarrow> Inl (NotFound i)
      | Some item \<Rightarrow>
          Inr (s\<lparr>items := put
                 (item\<lparr>blob := (case u_blob updates of Some b \<Rightarrow> Some b | None \<Rightarrow> blob item),
                       queueIndex := (case u_queueIndex updates of Some q \<Rightarrow> q | None \<Rightarrow> queueIndex item),
                       metadata := (case u_metadata updates of
                                      Some m \<Rightarrow> metadata item ++ m
                                    | None \<Rightarrow> metadata item)\<rparr>)
                 (items s)\<rparr>))"

text \<open>
  \<open>batchUpdateQueueIndices\<close>: every pair reads its row from the store as it was when the
  batch started and writes it back with the new position, in the order of the pairs, in one
  transaction. A pair whose id is unknown rejects the batch with \<open>NotFound\<close>; the other
  writes still happen.
\<close>

definition batchUpdateQueueIndices :: "(nat \<times> int) list \<Rightarrow> Playlist \<Rightarrow> Playlist \<times> error option" where
  "batchUpdateQueueIndices updates s =
     (foldl (\<lambda>acc (i, q). case getItem i s of
                               None \<Rightarrow> acc
                             | Some item \<Rightarrow> acc\<lparr>items := put (item\<lparr>queueIndex := q\<rparr>) (items acc)\<rparr>)
            s updates,
      case filter (\<lambda>(i, q). getItem i s = None) updates of
        [] \<Rightarrow> None
      | (i, q) # _ \<Rightarrow> Some (NotFound i))"

section \<open>Ordering reconciliation (src/src/roll.ts, types/roll.ts)\<close>

record RollEntry =
  entry_file :: string
  entry_order :: jsnum

definition truthy :: "val \<Rightarrow> bool" where
  "truthy v = (case v of VUndefined \<Rightarrow> False | VNull \<Rightarrow> False | VBool b \<Rightarrow> b
               | VNum n \<Rightarrow> n \<noteq> 0 | VStr s \<Rightarrow> s \<noteq> [])"

definition nullish :: "val \<Rightarrow> bool" where
  "nullish v \<longleftrightarrow> v = VUndefined \<or> v = VNull"

text \<open>The two lookup tables of \<open>buildOrderingFromEntries\<close>; a later entry overwrites an
  earlier one with the same file.\<close>

definition entryByFilename :: "RollEntry list \<Rightarrow> string \<rightharpoonup> RollEntry" where
  "entryByFilename entries = foldl (\<lambda>m entry. m(entry_file entry \<mapsto> entry)) Map.empty entries"

definition entryByOriginalIndex :: "RollEntry list \<Rightarrow> val \<Rightarrow> RollEntry option" where
  "entryByOriginalIndex entries v =
     (case v of
        VNum n \<Rightarrow> if 0 \<le> n \<and> n < int (length entries) then Some (entries ! nat n) else None
      | _ \<Rightarrow> None)"

text \<open>
  \<open>(filename && entryByFilename.get(filename)) ?? (originalIndex !== undefined &&
  entryByOriginalIndex.get(originalIndex))\<close>: a truthy filename is looked up and, when not
  found, the original index is tried; an absent or null filename goes to the original
  index; any other falsy filename (the empty string, zero, false) ends the lookup.
\<close>

definition resolveEntry :: "RollEntry list \<Rightarrow> QueueItemMetadata \<Rightarrow> RollEntry option" where
  "resolveEntry entries md =
     (let filename = mget md ''filename'';
          originalIndex = mget md ''originalIndex'';
          byIndex = (if originalIndex \<noteq> VUndefined
                     then entryByOriginalIndex entries originalIndex else None)
      in if truthy filename then
           (case (case filename of VStr f \<Rightarrow> entryByFilename entries f | _ \<Rightarrow> None) of
              Some entry \<Rightarrow> Some entry
            | None \<Rightarrow> byIndex)
         else if nullish filename then byIndex
         else None)"

text \<open>The order an item is to take: that of its entry, when it has one and the order is
  finite (\<open>Number.isFinite\<close>).\<close>

definition desiredOrder :: "RollEntry list \<Rightarrow> QueueItem \<Rightarrow> rat option" where
  "desiredOrder entries item =
     (case resolveEntry entries (metadata item) of
        None \<Rightarrow> None
      | Some entry \<Rightarrow> (case entry_order entry of Fin r \<Rightarrow> Some r | _ \<Rightarrow> None))"

definition buildOrderingFromEntries :: "RollEntry list \<Rightarrow> QueueItem list \<Rightarrow> (nat \<times> rat) list" where
  "buildOrderingFromEntries entries playlistItems =
     List.map_filter (\<lambda>item. map_option (\<lambda>r. (item_id item, r)) (desiredOrder entries item))
       playlistItems"

definition reorderAllItems ::
    "(nat \<times> rat) list \<Rightarrow> QueueItem list \<Rightarrow> Playlist \<Rightarrow> Playlist \<times> (error + nat)" where
  "reorderAllItems orderingData playlistItems s =
     (if playlistItems = [] then (s, Inr 0)
      else
        let orderMap = foldl (\<lambda>m (i, r). m(i \<mapsto> r)) Map.empty orderingData;
            itemsWithOrder = List.map_filter
               (\<lambda>item. map_option (\<lambda>r. (item, r)) (orderMap (item_id item))) playlistItems;
            itemsWithoutOrder = filter (\<lambda>item. orderMap (item_id item) = None) playlistItems;
            sorted = sort_key snd itemsWithOrder;
            finalOrdering =
               map (\<lambda>i. (item_id (fst (sorted ! i)), int i)) [0 ..< length sorted] @
               map (\<lambda>i. (item_id (itemsWithoutOrder ! i), int (length sorted) + int i))
                   [0 ..< length itemsWithoutOrder]
        in case batchUpdateQueueIndices finalOrdering s of
             (s', None) \<Rightarrow> (s', Inr (length sorted))
           | (s', Some e) \<Rightarrow> (s', Inl e))"

definition updateOrdering :: "RollEntry list \<Rightarrow> Playlist \<Rightarrow> Playlist \<times> (error + nat)" where
  "updateOrdering entries s =
     (let playlistItems = getAll s in
      if playlistItems = [] then (s, Inr 0)
      else let orderingData = buildOrderingFromEntries entries playlistItems in
           if orderingData = [] then (s, Inr 0)
           else reorderAllItems orderingData playlistItems s)"

text \<open>The rows with a desired order, paired with it, and the rows without, in the order
  of \<open>getAll\<close>.\<close>

definition withOrder :: "RollEntry list \<Rightarrow> Playlist \<Rightarrow> (QueueItem \<times> rat) list" where
  "withOrder entries s =
     List.map_filter (\<lambda>item. map_option (\<lambda>r. (item, r)) (desiredOrder entries item)) (getAll s)"

definition withoutOrder :: "RollEntry list \<Rightarrow> Playlist \<Rightarrow> QueueItem list" where
  "withoutOrder entries s = filter (\<lambda>item. desiredOrder entries item = None) (getAll s)"

text \<open>The id-to-position pairs that \<open>reorderAllItems\<close> hands to the batch update: the rows
  with an order, sorted by it, numbered from zero; then the rows without, numbered on.\<close>

definition finalOrdering :: "RollEntry list \<Rightarrow> Playlist \<Rightarrow> (nat \<times> int) list" where
  "finalOrdering entries s =
     (let sorted = sort_key snd (withOrder entries s); rest = withoutOrder entries s in
      map (\<lambda>i. (item_id (fst (sorted ! i)), int i)) [0 ..< length sorted] @
      map (\<lambda>i. (item_id (rest ! i), int (length sorted) + int i)) [0 ..< length rest])"

section \<open>Upsert (src/src/roll.ts)\<close>

record UpsertOptions =
  opt_id :: "nat option"
  matchBy :: "(string list \<times> val list) option"
  opt_queueIndex :: "int option"
  updateBlob :: "bool option"
  mergeMetadata :: "bool option"

record UpsertResult =
  res_id :: nat
  inserted :: bool
  matchedId :: "nat option"

definition matchesAll :: "string list \<Rightarrow> val list \<Rightarrow> QueueItem \<Rightarrow> bool" where
  "matchesAll fieldNames fieldValues item =
     list_all (\<lambda>(f, v). mget (metadata item) f = v) (zip fieldNames fieldValues)"

definition findItemByMetadata ::
    "string list \<Rightarrow> val list \<Rightarrow> Playlist \<Rightarrow> error + QueueItem option" where
  "findItemByMetadata fieldNames fieldValues s =
     (if length fieldNames \<noteq> length fieldValues then Inl LengthMismatch
      else Inr (find (matchesAll fieldNames fieldValues) (getAll s)))"

definition upsertItem ::
    "blob \<Rightarrow> QueueItemMetadata \<Rightarrow> UpsertOptions \<Rightarrow> Playlist \<Rightarrow> error + (Playlist \<times> UpsertResult)" where
  "upsertItem b md options s =
     (let byId = (case opt_id options of Some i \<Rightarrow> getItem i s | None \<Rightarrow> None);
          found = (case byId of
                     Some item \<Rightarrow> Inr (Some item)
                   | None \<Rightarrow> (case matchBy options of
                                Some (fieldNames, fieldValues) \<Rightarrow> findItemByMetadata fieldNames fieldValues s
                              | None \<Rightarrow> Inr None))
      in case found of
           Inl e \<Rightarrow> Inl e
         | Inr (Some existingItem) \<Rightarrow>
             (let matched = item_id existingItem;
                  updateData = \<lparr>u_blob = (if updateBlob options \<noteq> Some False then Some b else None),
                                u_queueIndex = opt_queueIndex options,
                                u_metadata = Some (if mergeMetadata options \<noteq> Some False
                                                   then metadata existingItem ++ md else md)\<rparr>
              in case updateItem matched updateData s of
                   Inl e \<Rightarrow> Inl e
                 | Inr s' \<Rightarrow> Inr (s', \<lparr>res_id = matched, inserted = False, matchedId = Some matched\<rparr>))
         | Inr None \<Rightarrow>
             (case add b md (opt_queueIndex options) s of
                (s', newId) \<Rightarrow> Inr (s', \<lparr>res_id = newId, inserted = True, matchedId = None\<rparr>)))"



definition s_two :: Playlist where
  "s_two = \<lparr>items = [\<lparr>item_id = 1, blob = Some ''A'', queueIndex = 0,
                        metadata = [''filename'' \<mapsto> VStr ''a'', ''title'' \<mapsto> VStr ''t'']\<rparr>,
                      \<lparr>item_id = 2, blob = Some ''B'', queueIndex = 1,
                        metadata = [''filename'' \<mapsto> VStr ''b'']\<rparr>],
             keyGenerator = 3\<rparr>"

definition opts_id1_matchb :: UpsertOptions where
  "opts_id1_matchb = \<lparr>opt_id = Some 1, matchBy = Some ([''filename''], [VStr ''b'']),
        opt_queueIndex = None, updateBlob = None, mergeMetadata = Some False\<rparr>"

text \<open>
  The store and ordering source of the four-row example, and a store whose only row was
  moved to position 5 by an upsert with an explicit position.
\<close>

definition s_four :: Playlist where
  "s_four = \<lparr>items = [\<lparr>item_id = 1, blob = Some ''A'', queueIndex = 0,
                         metadata = [''filename'' \<mapsto> VStr ''a'']\<rparr>,
                       \<lparr>item_id = 2, blob = Some ''B'', queueIndex = 1,
                         metadata = [''filename'' \<mapsto> VStr ''b'']\<rparr>,
                       \<lparr>item_id = 3, blob = Some ''C'', queueIndex = 2, metadata = Map.empty\<rparr>,
                       \<lparr>item_id = 4, blob = Some ''D'', queueIndex = 3,
                         metadata = [''filename'' \<mapsto> VStr ''x'']\<rparr>],
              keyGenerator = 5\<rparr>"

definition entries_ba :: "RollEntry list" where
  "entries_ba = [\<lparr>entry_file = ''b'', entry_order = Fin 0\<rparr>, \<lparr>entry_file = ''a'', entry_order = Fin 1\<rparr>]"

definition s_gap :: Playlist where
  "s_gap = (case upsertItem ''A'' Map.empty
                 \<lparr>opt_id = Some 1, matchBy = None, opt_queueIndex = Some 5,
                  updateBlob = None, mergeMetadata = None\<rparr>
                 (fst (add ''A'' Map.empty None emptyPlaylist)) of
              Inr (s, r) \<Rightarrow> s
            | Inl e \<Rightarrow> emptyPlaylist)"

section \<open>Buffer scheduler (src/src/roll.ts)\<close>

text \<open>
  The scheduler's own fields. The playout buffer and the video element are set together by
  \<open>attachBuffer\<close> and cleared together by \<open>detachBuffer\<close>: \<open>attached\<close> says both are there.
  A callback is registered or not. What the scheduler does to its collaborators is
  recorded as a list of effects, in order: a trim or an enqueue handed to the playout
  buffer, a callback fired, a warning logged. Playback times are finite numbers; the end
  of the buffered extent is \<open>0\<close> when nothing is buffered.
\<close>

record Roll =
  attached :: bool
  bufferThresholdSeconds :: rat
  bufferedQueueIndex :: nat
  totalItems :: nat
  pendingTrimBoundary :: "rat option"
  nextSegmentScheduled :: bool
  onRollEndCallback :: bool
  onStreamEndCallback :: bool

datatype effect = Trim jsnum jsnum | Enqueue Segment | RollEnd | StreamEnd | WarnNoBlob nat

text \<open>
  \<open>createSegmentFromItem\<close>, with the bytes of the blob: the segment id is the metadata's
  \<open>originalIndex\<close> unless that is null or undefined, else the queue position; the stream id
  comes from \<open>streamId\<close>, else \<open>stream_id\<close>, else the default.
\<close>

definition createSegmentFromItem :: "QueueItem \<Rightarrow> data \<Rightarrow> Segment" where
  "createSegmentFromItem item d =
     (let originalIndex = mget (metadata item) ''originalIndex'';
          segmentId = (if \<not> nullish originalIndex then originalIndex else VNum (queueIndex item));
          a = mget (metadata item) ''streamId'';
          b = mget (metadata item) ''stream_id'';
          streamId = (if \<not> nullish a then a else if \<not> nullish b then b else VStr ''main-stream'')
      in \<lparr>seg_id = segmentId, seg_data = Some d,
          seg_variant = Some \<lparr>stream_id = streamId, init = None\<rparr>\<rparr>)"

definition hasMoreSegments :: "Playlist \<Rightarrow> Roll \<Rightarrow> Roll \<times> bool" where
  "hasMoreSegments s st =
     (let len = length_store s; st' = st\<lparr>totalItems := len\<rparr> in
      if len = 0 then (st', False)
      else if onRollEndCallback st' then (st', bufferedQueueIndex st' < len)
      else (st', True))"


text \<open>
  \<open>queueNextSegment\<close>, given the end of the buffered extent at the time of the call. The
  gate \<open>nextSegmentScheduled\<close> is taken before the store is read. The row at the cursor
  modulo the row count is delivered; a row without a blob is logged and the gate released.
  After the enqueue the cursor advances, the end-of-roll callback fires when the cursor is a
  positive multiple of the row count, and the gate stays closed only when a trim boundary
  has just been recorded.
\<close>

definition queueNextSegment :: "rat \<Rightarrow> Playlist \<Rightarrow> Roll \<Rightarrow> Roll \<times> effect list" where
  "queueNextSegment bufferedEnd s st =
     (if \<not> attached st then (st, [])
      else if nextSegmentScheduled st then (st, [])
      else
        let its = getAll s;
            st1 = st\<lparr>nextSegmentScheduled := True, totalItems := length its\<rparr>
        in if its = [] then (st1\<lparr>nextSegmentScheduled := False\<rparr>, [])
           else
             let currentIndex = bufferedQueueIndex st1 mod length its;
                 item = its ! currentIndex
             in case blob item of
                  None \<Rightarrow> (st1\<lparr>nextSegmentScheduled := False\<rparr>, [WarnNoBlob (item_id item)])
                | Some bytes \<Rightarrow>
                    let previousBoundary = bufferedEnd;
                        segment = createSegmentFromItem item bytes;
                        st2 = st1\<lparr>bufferedQueueIndex := bufferedQueueIndex st1 + 1\<rparr>;
                        ended = (if onRollEndCallback st2 \<and> bufferedQueueIndex st2 > 0 \<and>
                                    bufferedQueueIndex st2 mod length its = 0
                                 then [RollEnd] else [])
                    in if previousBoundary > 0 \<and> pendingTrimBoundary st2 = None
                       then (st2\<lparr>pendingTrimBoundary := Some previousBoundary\<rparr>,
                             Enqueue segment # ended)
                       else (st2\<lparr>nextSegmentScheduled := False\<rparr>, Enqueue segment # ended))"


text \<open>
  A run of deliveries, one for each buffered end given: before each, the gate is released as
  the feedback tick releases it once playback has reached the pending trim boundary. The
  effects of each delivery are kept apart.
\<close>

definition releaseGate :: "Roll \<Rightarrow> Roll" where
  "releaseGate st = st\<lparr>pendingTrimBoundary := None, nextSegmentScheduled := False\<rparr>"

fun deliveries :: "Playlist \<Rightarrow> rat list \<Rightarrow> Roll \<Rightarrow> Roll \<times> effect list list" where
  "deliveries s [] st = (st, [])"
| "deliveries s (b # bs) st =
     (case queueNextSegment b s (releaseGate st) of
        (st1, es) \<Rightarrow> (case deliveries s bs st1 of (st2, ess) \<Rightarrow> (st2, es # ess)))"



text \<open>Concrete scheduler states and stores for the runs below.\<close>

definition roll0 :: Roll where
  "roll0 = \<lparr>attached = True, bufferThresholdSeconds = 4, bufferedQueueIndex = 0, totalItems = 0,
            pendingTrimBoundary = None, nextSegmentScheduled = False,
            onRollEndCallback = False, onStreamEndCallback = False\<rparr>"


section \<open>Ordered store: index maintenance\<close>



lemma length_shift: "length (shiftQueueIndices i d its) = length its"
  by (simp add: shiftQueueIndices_def)







lemma getItem_SomeD: "getItem i s = Some x \<Longrightarrow> x \<in> set (items s) \<and> item_id x = i"
  by (auto simp: getItem_def find_Some_iff)






lemma put_existing:
  "item_id item \<in> item_id ` set its \<Longrightarrow>
   put item its = map (\<lambda>x. if item_id x = item_id item then item else x) its"
  by (simp add: put_def)

lemma map_id_put_existing:
  "item_id item \<in> item_id ` set its \<Longrightarrow> map item_id (put item its) = map item_id its"
  by (simp add: put_existing comp_def cong: map_cong)











lemma find_map_id:
  "distinct (map item_id xs) \<Longrightarrow> x \<in> set xs \<Longrightarrow> (\<And>y. item_id (g y) = item_id y) \<Longrightarrow>
   find (\<lambda>y. item_id y = item_id x) (map g xs) = Some (g x)"
proof (induction xs)
  case Nil
  then show ?case by simp
next
  case (Cons y ys)
  then show ?case by (auto intro: rev_image_eqI)
qed






section \<open>Stream sink: flush, trim and enqueue\<close>

lemma lastDelivered_append:
  "lastDelivered l (qs @ [q]) = (if isInit q then lastDelivered l qs else Some (q_id q))"
  by (induction qs arbitrary: l) simp_all

lemma drain_spec:
  "drain sb src qs l = (src', qs', l') \<Longrightarrow>
   \<exists>taken. qs = taken @ qs' \<and> appendAll sb src taken = Some src' \<and> l' = lastDelivered l taken \<and>
          (qs' = [] \<or> updating sb src' \<or> appendBuffer sb src' (q_data (hd qs')) = None)"
proof (induction qs arbitrary: src l)
  case Nil
  then show ?case by simp
next
  case (Cons q qs)
  show ?case
  proof (cases "updating sb src")
    case True
    with Cons.prems have "src' = src" "qs' = q # qs" "l' = l" by simp_all
    with True show ?thesis by simp
  next
    case False
    show ?thesis
    proof (cases "appendBuffer sb src (q_data q)")
      case None
      with False Cons.prems have "src' = src" "qs' = q # qs" "l' = l" by simp_all
      with None show ?thesis by simp
    next
      case (Some s1)
      with False Cons.prems
      have "drain sb s1 qs (if isInit q then l else Some (q_id q)) = (src', qs', l')" by simp
      from Cons.IH[OF this] obtain taken where
        d: "qs = taken @ qs'" "appendAll sb s1 taken = Some src'"
           "l' = lastDelivered (if isInit q then l else Some (q_id q)) taken"
           "qs' = [] \<or> updating sb src' \<or> appendBuffer sb src' (q_data (hd qs')) = None"
        by blast
      have "q # qs = (q # taken) @ qs'" using d(1) by simp
      moreover have "appendAll sb src (q # taken) = Some src'" using False Some d(2) by simp
      moreover have "l' = lastDelivered l (q # taken)" using d(3) by simp
      ultimately show ?thesis using d(4) by blast
    qed
  qed
qed

lemma drainQueue_spec:
  "\<exists>taken src'. queue st = taken @ queue (drainQueue sb src st) \<and> appendAll sb src taken = Some src' \<and>
      source (drainQueue sb src st) = Some src' \<and>
      lastSegmentId (drainQueue sb src st) = lastDelivered (lastSegmentId st) taken \<and>
      pendingTrimRanges (drainQueue sb src st) = pendingTrimRanges st \<and>
      (queue (drainQueue sb src st) = [] \<or> updating sb src' \<or>
       appendBuffer sb src' (q_data (hd (queue (drainQueue sb src st)))) = None)"
proof -
  obtain src' qs' l' where d: "drain sb src (queue st) (lastSegmentId st) = (src', qs', l')"
    by (cases "drain sb src (queue st) (lastSegmentId st)") auto
  from drain_spec[OF d] obtain taken where
    "queue st = taken @ qs'" "appendAll sb src taken = Some src'" "l' = lastDelivered (lastSegmentId st) taken"
    "qs' = [] \<or> updating sb src' \<or> appendBuffer sb src' (q_data (hd qs')) = None"
    by blast
  moreover have "drainQueue sb src st = st\<lparr>source := Some src', queue := qs', lastSegmentId := l'\<rparr>"
    by (simp add: drainQueue_def d)
  ultimately show ?thesis by auto
qed

text \<open>
  C6 (as the code has it). A flush does nothing when there is no buffer or the buffer is busy.
  Otherwise, when a trim request is queued, exactly one request is taken off the trim queue
  and handed to the buffer; if the buffer takes it, the flush returns without appending.
  When no trim is queued, or the buffer refuses the one that was taken (it is dropped), the
  queued appends are drained in order from the front: what was taken and what is left make
  up the old queue, the buffer has taken exactly the entries removed, draining stops at the
  first entry the buffer refuses (which stays at the front) or when the buffer turns busy,
  and the recorded id is that of the last entry taken that is not an init entry.
\<close>

theorem flush_policy:
  "(source st = None \<longrightarrow> flush sb st = st) \<and>
   (\<forall>src. source st = Some src \<and> updating sb src \<longrightarrow> flush sb st = st) \<and>
   (\<forall>src r rs src'. source st = Some src \<and> \<not> updating sb src \<and> pendingTrimRanges st = r # rs \<and>
        sb_remove sb src (fst r) (snd r) = Some src'
      \<longrightarrow> flush sb st = st\<lparr>source := Some src', pendingTrimRanges := rs\<rparr>) \<and>
   (\<forall>src. source st = Some src \<and> \<not> updating sb src \<and>
        (pendingTrimRanges st = [] \<or>
         sb_remove sb src (fst (hd (pendingTrimRanges st))) (snd (hd (pendingTrimRanges st))) = None)
      \<longrightarrow> (\<exists>taken src'. queue st = taken @ queue (flush sb st) \<and>
             appendAll sb src taken = Some src' \<and> source (flush sb st) = Some src' \<and>
             lastSegmentId (flush sb st) = lastDelivered (lastSegmentId st) taken \<and>
             (taken \<noteq> [] \<and> \<not> isInit (last taken)
                \<longrightarrow> lastSegmentId (flush sb st) = Some (q_id (last taken))) \<and>
             pendingTrimRanges (flush sb st) = tl (pendingTrimRanges st) \<and>
             (queue (flush sb st) = [] \<or> updating sb src' \<or>
              appendBuffer sb src' (q_data (hd (queue (flush sb st)))) = None)))"
proof (intro conjI allI impI)
  show "flush sb st = st" if "source st = None"
    using that by (simp add: flush_def)
  show "flush sb st = st" if "source st = Some src \<and> updating sb src" for src
    using that by (simp add: flush_def)
  show "flush sb st = st\<lparr>source := Some src', pendingTrimRanges := rs\<rparr>"
    if "source st = Some src \<and> \<not> updating sb src \<and> pendingTrimRanges st = r # rs \<and>
        sb_remove sb src (fst r) (snd r) = Some src'" for src r rs src'
    using that by (simp add: flush_def)
  show "\<exists>taken src'. queue st = taken @ queue (flush sb st) \<and>
             appendAll sb src taken = Some src' \<and> source (flush sb st) = Some src' \<and>
             lastSegmentId (flush sb st) = lastDelivered (lastSegmentId st) taken \<and>
             (taken \<noteq> [] \<and> \<not> isInit (last taken)
                \<longrightarrow> lastSegmentId (flush sb st) = Some (q_id (last taken))) \<and>
             pendingTrimRanges (flush sb st) = tl (pendingTrimRanges st) \<and>
             (queue (flush sb st) = [] \<or> updating sb src' \<or>
              appendBuffer sb src' (q_data (hd (queue (flush sb st)))) = None)"
    if h: "source st = Some src \<and> \<not> updating sb src \<and>
        (pendingTrimRanges st = [] \<or>
         sb_remove sb src (fst (hd (pendingTrimRanges st))) (snd (hd (pendingTrimRanges st))) = None)" for src
  proof -
    let ?st1 = "st\<lparr>pendingTrimRanges := tl (pendingTrimRanges st)\<rparr>"
    have f: "flush sb st = drainQueue sb src ?st1"
    proof (cases "pendingTrimRanges st")
      case Nil
      then have e: "?st1 = st" by simp
      show ?thesis unfolding e using Nil h by (simp add: flush_def)
    next
      case (Cons r rs)
      with h show ?thesis by (simp add: flush_def)
    qed
    from drainQueue_spec[of ?st1 sb src] obtain taken src' where
      d: "queue ?st1 = taken @ queue (drainQueue sb src ?st1)" "appendAll sb src taken = Some src'"
         "source (drainQueue sb src ?st1) = Some src'"
         "lastSegmentId (drainQueue sb src ?st1) = lastDelivered (lastSegmentId ?st1) taken"
         "pendingTrimRanges (drainQueue sb src ?st1) = pendingTrimRanges ?st1"
         "queue (drainQueue sb src ?st1) = [] \<or> updating sb src' \<or>
            appendBuffer sb src' (q_data (hd (queue (drainQueue sb src ?st1)))) = None"
      by blast
    have l: "taken \<noteq> [] \<and> \<not> isInit (last taken) \<longrightarrow>
             lastDelivered (lastSegmentId st) taken = Some (q_id (last taken))"
    proof (cases taken rule: rev_cases)
      case Nil
      then show ?thesis by simp
    next
      case (snoc ds q)
      then show ?thesis by (simp add: lastDelivered_append)
    qed
    show ?thesis
      apply (rule exI[where x = taken], rule exI[where x = src'])
      using d l unfolding f by simp
  qed
qed

text \<open>
  C6 as stated fails: with a trim request queued and an idle buffer that refuses the removal,
  no trim is executed and the flush goes on to append the queued segment.
\<close>

theorem flush_trim_rejected_counterexample:
  "pendingTrimRanges st_c6 = [(Fin 0, Fin 1)] \<and>
   map_option (updating logBuffer) (source st_c6) = Some False \<and>
   flush logBuffer st_c6 =
     \<lparr>source = Some \<lparr>busy = True, appended = [''d''], removed = []\<rparr>,
      queue = [], lastSegmentId = Some (VNum 0), pendingTrimRanges = []\<rparr>"
  by (simp add: st_c6_def flush_def logBuffer_def drainQueue_def)

theorem flush_policy_witness:
  "source (st_idle\<lparr>source := None\<rparr>) = None \<and>
   flush logBuffer (st_idle\<lparr>source := None\<rparr>) = st_idle\<lparr>source := None\<rparr> \<and>
   updating logBuffer \<lparr>busy = True, appended = [], removed = []\<rparr> \<and>
   flush logBuffer (st_idle\<lparr>source := Some \<lparr>busy = True, appended = [], removed = []\<rparr>\<rparr>)
     = st_idle\<lparr>source := Some \<lparr>busy = True, appended = [], removed = []\<rparr>\<rparr> \<and>
   sb_remove logBuffer \<lparr>busy = False, appended = [''h''], removed = []\<rparr> (Fin 0) (Fin 1)
     = Some \<lparr>busy = True, appended = [''h''], removed = [(Fin 0, Fin 1)]\<rparr> \<and>
   flush logBuffer (st_idle\<lparr>pendingTrimRanges := [(Fin 0, Fin 1), (Fin 1, Fin 2)]\<rparr>)
     = st_idle\<lparr>source := Some \<lparr>busy = True, appended = [''h''], removed = [(Fin 0, Fin 1)]\<rparr>,
               pendingTrimRanges := [(Fin 1, Fin 2)]\<rparr> \<and>
   pendingTrimRanges st_idle = [] \<and>
   (\<exists>taken src'. queue st_idle = taken @ queue (flush logBuffer st_idle) \<and>
       appendAll logBuffer \<lparr>busy = False, appended = [''h''], removed = []\<rparr> taken = Some src' \<and>
       source (flush logBuffer st_idle) = Some src' \<and>
       lastSegmentId (flush logBuffer st_idle) = lastDelivered (lastSegmentId st_idle) taken \<and>
       (taken \<noteq> [] \<and> \<not> isInit (last taken)
          \<longrightarrow> lastSegmentId (flush logBuffer st_idle) = Some (q_id (last taken))) \<and>
       pendingTrimRanges (flush logBuffer st_idle) = tl (pendingTrimRanges st_idle) \<and>
       (queue (flush logBuffer st_idle) = [] \<or> updating logBuffer src' \<or>
        appendBuffer logBuffer src' (q_data (hd (queue (flush logBuffer st_idle)))) = None))"
proof -
  have a: "source (st_idle\<lparr>source := None\<rparr>) = None" by simp
  have b: "source (st_idle\<lparr>source := Some \<lparr>busy = True, appended = [], removed = []\<rparr>\<rparr>)
             = Some \<lparr>busy = True, appended = [], removed = []\<rparr>
           \<and> updating logBuffer \<lparr>busy = True, appended = [], removed = []\<rparr>"
    by (simp add: logBuffer_def)
  have c: "source (st_idle\<lparr>pendingTrimRanges := [(Fin 0, Fin 1), (Fin 1, Fin 2)]\<rparr>)
             = Some \<lparr>busy = False, appended = [''h''], removed = []\<rparr>
           \<and> \<not> updating logBuffer \<lparr>busy = False, appended = [''h''], removed = []\<rparr>
           \<and> pendingTrimRanges (st_idle\<lparr>pendingTrimRanges := [(Fin 0, Fin 1), (Fin 1, Fin 2)]\<rparr>)
                = (Fin 0, Fin 1) # [(Fin 1, Fin 2)]
           \<and> sb_remove logBuffer \<lparr>busy = False, appended = [''h''], removed = []\<rparr>
                 (fst (Fin 0, Fin 1)) (snd (Fin 0, Fin 1))
                = Some \<lparr>busy = True, appended = [''h''], removed = [(Fin 0, Fin 1)]\<rparr>"
    by (simp add: st_idle_def logBuffer_def)
  have d: "source st_idle = Some \<lparr>busy = False, appended = [''h''], removed = []\<rparr>
           \<and> \<not> updating logBuffer \<lparr>busy = False, appended = [''h''], removed = []\<rparr>
           \<and> (pendingTrimRanges st_idle = [] \<or>
               sb_remove logBuffer \<lparr>busy = False, appended = [''h''], removed = []\<rparr>
                  (fst (hd (pendingTrimRanges st_idle))) (snd (hd (pendingTrimRanges st_idle))) = None)"
    by (simp add: st_idle_def logBuffer_def)
  have p: "pendingTrimRanges st_idle = []" by (simp add: st_idle_def)
  have r: "sb_remove logBuffer \<lparr>busy = False, appended = [''h''], removed = []\<rparr> (Fin 0) (Fin 1)
     = Some \<lparr>busy = True, appended = [''h''], removed = [(Fin 0, Fin 1)]\<rparr>"
    by (simp add: logBuffer_def)
  from flush_policy[of "st_idle\<lparr>source := None\<rparr>" logBuffer] a
  have f1: "flush logBuffer (st_idle\<lparr>source := None\<rparr>) = st_idle\<lparr>source := None\<rparr>" by blast
  from flush_policy[of "st_idle\<lparr>source := Some \<lparr>busy = True, appended = [], removed = []\<rparr>\<rparr>" logBuffer] b
  have f2: "flush logBuffer (st_idle\<lparr>source := Some \<lparr>busy = True, appended = [], removed = []\<rparr>\<rparr>)
     = st_idle\<lparr>source := Some \<lparr>busy = True, appended = [], removed = []\<rparr>\<rparr>" by blast
  from flush_policy[of "st_idle\<lparr>pendingTrimRanges := [(Fin 0, Fin 1), (Fin 1, Fin 2)]\<rparr>" logBuffer] c
  have f3: "flush logBuffer (st_idle\<lparr>pendingTrimRanges := [(Fin 0, Fin 1), (Fin 1, Fin 2)]\<rparr>)
     = st_idle\<lparr>pendingTrimRanges := [(Fin 0, Fin 1), (Fin 1, Fin 2)]\<rparr>
         \<lparr>source := Some \<lparr>busy = True, appended = [''h''], removed = [(Fin 0, Fin 1)]\<rparr>,
               pendingTrimRanges := [(Fin 1, Fin 2)]\<rparr>" by blast
  from flush_policy[of st_idle logBuffer] d
  have f4: "\<exists>taken src'. queue st_idle = taken @ queue (flush logBuffer st_idle) \<and>
       appendAll logBuffer \<lparr>busy = False, appended = [''h''], removed = []\<rparr> taken = Some src' \<and>
       source (flush logBuffer st_idle) = Some src' \<and>
       lastSegmentId (flush logBuffer st_idle) = lastDelivered (lastSegmentId st_idle) taken \<and>
       (taken \<noteq> [] \<and> \<not> isInit (last taken)
          \<longrightarrow> lastSegmentId (flush logBuffer st_idle) = Some (q_id (last taken))) \<and>
       pendingTrimRanges (flush logBuffer st_idle) = tl (pendingTrimRanges st_idle) \<and>
       (queue (flush logBuffer st_idle) = [] \<or> updating logBuffer src' \<or>
        appendBuffer logBuffer src' (q_data (hd (queue (flush logBuffer st_idle)))) = None)" by blast
  from f3 have f3': "flush logBuffer (st_idle\<lparr>pendingTrimRanges := [(Fin 0, Fin 1), (Fin 1, Fin 2)]\<rparr>)
     = st_idle\<lparr>source := Some \<lparr>busy = True, appended = [''h''], removed = [(Fin 0, Fin 1)]\<rparr>,
               pendingTrimRanges := [(Fin 1, Fin 2)]\<rparr>" by simp
  from a b f1 f2 f3' f4 p r show ?thesis by blast
qed

lemma num_max_zero_not_NaN: "a \<noteq> NaN \<Longrightarrow> num_max (Fin 0) a \<noteq> NaN"
  by (cases a) simp_all

lemma num_le_max: "s \<noteq> NaN \<Longrightarrow> b \<noteq> NaN \<Longrightarrow> num_le (num_max s b) s \<longleftrightarrow> num_le b s"
  by (cases s; cases b) simp_all

lemma num_max_right: "s \<noteq> NaN \<Longrightarrow> b \<noteq> NaN \<Longrightarrow> \<not> num_le b s \<Longrightarrow> num_max s b = b"
  by (cases s; cases b) simp_all

text \<open>
  C7 (as the code has it). \<open>trim(start, end)\<close> changes nothing when either bound is NaN
  or when \<open>end <= max(0, start)\<close>; otherwise it queues the range from \<open>max(0, start)\<close>
  to \<open>end\<close> and flushes. A negative start is clamped to zero and an infinite end is kept.
\<close>

theorem trim_contract:
  "trim sb a b st =
     (if a = NaN \<or> b = NaN \<or> num_le b (num_max (Fin 0) a) then st
      else flush sb (st\<lparr>pendingTrimRanges := pendingTrimRanges st @ [(num_max (Fin 0) a, b)]\<rparr>))"
proof (cases "a = NaN \<or> b = NaN")
  case True
  then show ?thesis by (auto simp: trim_def)
next
  case False
  then have n: "num_max (Fin 0) a \<noteq> NaN" "b \<noteq> NaN" by (simp_all add: num_max_zero_not_NaN)
  show ?thesis
  proof (cases "num_le b (num_max (Fin 0) a)")
    case True
    with False n show ?thesis by (simp add: trim_def Let_def num_le_max)
  next
    case nle: False
    with False n show ?thesis by (simp add: trim_def Let_def num_le_max num_max_right)
  qed
qed

theorem trim_contract_witness:
  "trim logBuffer (Fin 2) (Fin 5) st_closed = st_closed\<lparr>pendingTrimRanges := [(Fin 2, Fin 5)]\<rparr> \<and>
   trim logBuffer (Fin 5) (Fin 2) st_closed = st_closed \<and>
   trim logBuffer (Fin 1) NaN st_closed = st_closed \<and>
   trim logBuffer (Fin 0) PosInf st_closed = st_closed\<lparr>pendingTrimRanges := [(Fin 0, PosInf)]\<rparr>"
  using trim_contract[of logBuffer "Fin 2" "Fin 5" st_closed]
        trim_contract[of logBuffer "Fin 5" "Fin 2" st_closed]
        trim_contract[of logBuffer "Fin 1" NaN st_closed]
        trim_contract[of logBuffer "Fin 0" PosInf st_closed]
  by (simp add: st_closed_def flush_def)

text \<open>
  C7 as stated fails: \<open>trim(-1, 5)\<close> has a negative bound and yet queues the range
  \<open>[0, 5)\<close>.
\<close>

theorem trim_negative_start_counterexample:
  "trim logBuffer (Fin (- 1)) (Fin 5) st_closed = st_closed\<lparr>pendingTrimRanges := [(Fin 0, Fin 5)]\<rparr> \<and>
   trim logBuffer (Fin (- 1)) (Fin 5) st_closed \<noteq> st_closed"
  by (simp add: trim_def st_closed_def flush_def Let_def)

lemma flush_fifo:
  "\<exists>taken. queue st = taken @ queue (flush sb st) \<and>
     (taken \<noteq> [] \<longrightarrow> (\<exists>src src'. source st = Some src \<and> appendAll sb src taken = Some src' \<and>
                                   source (flush sb st) = Some src'))"
proof (cases "source st")
  case None
  then have "flush sb st = st" by (simp add: flush_def)
  then show ?thesis by simp
next
  case (Some src)
  show ?thesis
  proof (cases "updating sb src")
    case True
    with Some have "flush sb st = st" by (simp add: flush_def)
    then show ?thesis by simp
  next
    case idle: False
    let ?st1 = "st\<lparr>pendingTrimRanges := tl (pendingTrimRanges st)\<rparr>"
    have d: "\<exists>taken. queue st = taken @ queue (drainQueue sb src st') \<and>
        (taken \<noteq> [] \<longrightarrow> (\<exists>src0 src'. source st = Some src0 \<and> appendAll sb src0 taken = Some src' \<and>
                                   source (drainQueue sb src st') = Some src'))"
      if "queue st' = queue st" for st'
      using drainQueue_spec[of st' sb src] Some that by metis
    show ?thesis
    proof (cases "pendingTrimRanges st")
      case Nil
      with Some idle have "flush sb st = drainQueue sb src st" by (simp add: flush_def)
      with d[of st] show ?thesis by simp
    next
      case (Cons r rs)
      show ?thesis
      proof (cases "sb_remove sb src (fst r) (snd r)")
        case None
        with Some idle Cons have "flush sb st = drainQueue sb src (st\<lparr>pendingTrimRanges := rs\<rparr>)"
          by (simp add: flush_def)
        with d[of "st\<lparr>pendingTrimRanges := rs\<rparr>"] show ?thesis by simp
      next
        case (Some src')
        with \<open>source st = Some src\<close> idle Cons
        have "flush sb st = st\<lparr>source := Some src', pendingTrimRanges := rs\<rparr>"
          by (simp add: flush_def)
        then show ?thesis by simp
      qed
    qed
  qed
qed

text \<open>
  C8 (as the code has it). For a segment that declares an init payload, \<open>enqueue\<close> queues
  the init payload immediately ahead of that segment's data payload, behind everything
  queued before, whatever was delivered earlier for its stream tag; then it flushes. The
  entries the buffer has taken are a prefix of the queue in submission order and the rest
  stays queued in that order.
\<close>

theorem enqueue_contract:
  "seg_variant seg = Some v \<and> init v = Some i \<and> seg_data seg = Some d \<longrightarrow>
     enqueue sb seg st =
       flush sb (st\<lparr>queue := queue st @
          [\<lparr>q_id = seg_id seg, q_data = i, q_variant = Some v, isInit = True\<rparr>,
           \<lparr>q_id = seg_id seg, q_data = d, q_variant = Some v, isInit = False\<rparr>]\<rparr>) \<and>
     (\<exists>taken. queue st @
          [\<lparr>q_id = seg_id seg, q_data = i, q_variant = Some v, isInit = True\<rparr>,
           \<lparr>q_id = seg_id seg, q_data = d, q_variant = Some v, isInit = False\<rparr>]
            = taken @ queue (enqueue sb seg st) \<and>
        (taken \<noteq> [] \<longrightarrow> (\<exists>src src'. source st = Some src \<and> appendAll sb src taken = Some src' \<and>
                                      source (enqueue sb seg st) = Some src')))"
proof
  assume h: "seg_variant seg = Some v \<and> init v = Some i \<and> seg_data seg = Some d"
  let ?st2 = "st\<lparr>queue := queue st @
          [\<lparr>q_id = seg_id seg, q_data = i, q_variant = Some v, isInit = True\<rparr>,
           \<lparr>q_id = seg_id seg, q_data = d, q_variant = Some v, isInit = False\<rparr>]\<rparr>"
  have e: "enqueue sb seg st = flush sb ?st2"
    using h by (simp add: enqueue_def)
  from flush_fifo[of ?st2 sb] have
    "\<exists>taken. queue ?st2 = taken @ queue (flush sb ?st2) \<and>
        (taken \<noteq> [] \<longrightarrow> (\<exists>src src'. source st = Some src \<and> appendAll sb src taken = Some src' \<and>
             source (flush sb ?st2) = Some src'))"
    by simp
  then show "enqueue sb seg st = flush sb ?st2 \<and>
     (\<exists>taken. queue st @
          [\<lparr>q_id = seg_id seg, q_data = i, q_variant = Some v, isInit = True\<rparr>,
           \<lparr>q_id = seg_id seg, q_data = d, q_variant = Some v, isInit = False\<rparr>]
            = taken @ queue (enqueue sb seg st) \<and>
        (taken \<noteq> [] \<longrightarrow> (\<exists>src src'. source st = Some src \<and> appendAll sb src taken = Some src' \<and>
                                      source (enqueue sb seg st) = Some src')))"
    unfolding e by simp
qed

theorem enqueue_contract_witness:
  "seg_variant seg_main = Some \<lparr>stream_id = VStr ''main-stream'', init = Some ''i''\<rparr> \<and>
   init \<lparr>stream_id = VStr ''main-stream'', init = Some ''i''\<rparr> = Some ''i'' \<and>
   seg_data seg_main = Some ''d'' \<and>
   enqueue logBuffer seg_main st_open =
     \<lparr>source = Some \<lparr>busy = True, appended = [''i''], removed = []\<rparr>,
      queue = [\<lparr>q_id = VNum 0, q_data = ''d'',
                q_variant = Some \<lparr>stream_id = VStr ''main-stream'', init = Some ''i''\<rparr>, isInit = False\<rparr>],
      lastSegmentId = None, pendingTrimRanges = []\<rparr>"
proof -
  have h: "seg_variant seg_main = Some \<lparr>stream_id = VStr ''main-stream'', init = Some ''i''\<rparr> \<and>
     init \<lparr>stream_id = VStr ''main-stream'', init = Some ''i''\<rparr> = Some ''i'' \<and>
     seg_data seg_main = Some ''d''"
    by (simp add: seg_main_def)
  with enqueue_contract[of seg_main "\<lparr>stream_id = VStr ''main-stream'', init = Some ''i''\<rparr>" "''i''" "''d''" logBuffer st_open]
  have "enqueue logBuffer seg_main st_open =
       flush logBuffer (st_open\<lparr>queue := queue st_open @
          [\<lparr>q_id = seg_id seg_main, q_data = ''i'',
            q_variant = Some \<lparr>stream_id = VStr ''main-stream'', init = Some ''i''\<rparr>, isInit = True\<rparr>,
           \<lparr>q_id = seg_id seg_main, q_data = ''d'',
            q_variant = Some \<lparr>stream_id = VStr ''main-stream'', init = Some ''i''\<rparr>, isInit = False\<rparr>]\<rparr>)"
    by blast
  then have "enqueue logBuffer seg_main st_open =
     \<lparr>source = Some \<lparr>busy = True, appended = [''i''], removed = []\<rparr>,
      queue = [\<lparr>q_id = VNum 0, q_data = ''d'',
                q_variant = Some \<lparr>stream_id = VStr ''main-stream'', init = Some ''i''\<rparr>, isInit = False\<rparr>],
      lastSegmentId = None, pendingTrimRanges = []\<rparr>"
    by (simp add: st_open_def seg_main_def flush_def drainQueue_def logBuffer_def)
  with h show ?thesis by blast
qed

text \<open>
  C8 as stated fails: after the init payload and the data of a stream tag have been
  delivered, enqueueing a segment of the same tag queues and delivers the init payload a
  second time.
\<close>

theorem enqueue_second_init_counterexample:
  "map_option appended (source (updateend (updateend (enqueue logBuffer seg_main st_open))))
      = Some [''i'', ''d''] \<and>
   queue (updateend (updateend (enqueue logBuffer seg_main st_open))) = [] \<and>
   map_option appended (source
       (enqueue logBuffer seg_main (updateend (updateend (enqueue logBuffer seg_main st_open)))))
      = Some [''i'', ''d'', ''i''] \<and>
   map q_data (queue
       (enqueue logBuffer seg_main (updateend (updateend (enqueue logBuffer seg_main st_open)))))
      = [''d'']"
  by (simp add: updateend_def enqueue_def seg_main_def st_open_def flush_def drainQueue_def logBuffer_def)

section \<open>Item updates and upsert\<close>

lemma find_map_replace:
  assumes "item_id item = i"
  shows "find (\<lambda>x. item_id x = j) (map (\<lambda>x. if item_id x = i then item else x) its) =
         (if j = i then (if i \<in> item_id ` set its then Some item else None)
          else find (\<lambda>x. item_id x = j) its)"
  using assms by (induction its) auto

lemma getItem_put:
  assumes "item_id item \<in> item_id ` set its"
  shows "find (\<lambda>x. item_id x = j) (put item its) =
         (if j = item_id item then Some item else find (\<lambda>x. item_id x = j) its)"
  using assms find_map_replace[of item "item_id item" j its] by (simp add: put_existing)

lemma getItem_in_ids: "getItem i s = Some item \<Longrightarrow> i \<in> item_id ` set (items s)"
  using getItem_SomeD by blast

lemma updateItem_result:
  assumes "getItem i s = Some item"
  shows "\<exists>s'. updateItem i updates s = Inr s' \<and>
     getItem i s' = Some (item\<lparr>blob := (case u_blob updates of Some b \<Rightarrow> Some b | None \<Rightarrow> blob item),
                       queueIndex := (case u_queueIndex updates of Some q \<Rightarrow> q | None \<Rightarrow> queueIndex item),
                       metadata := (case u_metadata updates of
                                      Some m \<Rightarrow> metadata item ++ m
                                    | None \<Rightarrow> metadata item)\<rparr>) \<and>
     (\<forall>j. j \<noteq> i \<longrightarrow> getItem j s' = getItem j s)"
proof -
  let ?new = "item\<lparr>blob := (case u_blob updates of Some b \<Rightarrow> Some b | None \<Rightarrow> blob item),
                       queueIndex := (case u_queueIndex updates of Some q \<Rightarrow> q | None \<Rightarrow> queueIndex item),
                       metadata := (case u_metadata updates of
                                      Some m \<Rightarrow> metadata item ++ m
                                    | None \<Rightarrow> metadata item)\<rparr>"
  have id: "item_id ?new = i" using assms getItem_SomeD by simp
  have mem: "item_id ?new \<in> item_id ` set (items s)"
    unfolding id using assms by (rule getItem_in_ids)
  have u: "updateItem i updates s = Inr (s\<lparr>items := put ?new (items s)\<rparr>)"
    using assms by (simp add: updateItem_def)
  have "getItem j (s\<lparr>items := put ?new (items s)\<rparr>) = (if j = i then Some ?new else getItem j s)" for j
    using getItem_put[OF mem, of j] id by (simp add: getItem_def)
  with u show ?thesis by simp
qed

text \<open>
  C10. When the updates of \<open>updateItem\<close> carry a metadata map, the metadata stored
  afterwards is the stored metadata overlaid with the supplied map: the supplied keys take
  the supplied values and every other key keeps its value. So an \<open>upsertItem\<close> that updates
  an existing row with \<open>mergeMetadata = false\<close> still leaves the stored keys that the
  supplied metadata does not mention in place.
\<close>

theorem updateItem_merges_metadata:
  "(getItem i s = Some item \<and> u_metadata updates = Some m \<longrightarrow>
      (\<exists>s' item'. updateItem i updates s = Inr s' \<and> getItem i s' = Some item' \<and>
         metadata item' = metadata item ++ m \<and>
         (\<forall>k. k \<notin> dom m \<longrightarrow> metadata item' k = metadata item k) \<and>
         (\<forall>k \<in> dom m. metadata item' k = m k))) \<and>
   (upsertItem b md options s = Inr (s2, r) \<and> \<not> inserted r \<and> mergeMetadata options = Some False \<longrightarrow>
      (\<exists>old new. getItem (res_id r) s = Some old \<and> getItem (res_id r) s2 = Some new \<and>
         metadata new = metadata old ++ md \<and>
         (\<forall>k. k \<notin> dom md \<longrightarrow> metadata new k = metadata old k)))"
proof (intro conjI impI)
  assume h: "getItem i s = Some item \<and> u_metadata updates = Some m"
  from updateItem_result[of i s item updates] h obtain s' where
    s': "updateItem i updates s = Inr s'"
        "getItem i s' = Some (item\<lparr>blob := (case u_blob updates of Some b \<Rightarrow> Some b | None \<Rightarrow> blob item),
                       queueIndex := (case u_queueIndex updates of Some q \<Rightarrow> q | None \<Rightarrow> queueIndex item),
                       metadata := metadata item ++ m\<rparr>)"
    by auto
  let ?item' = "item\<lparr>blob := (case u_blob updates of Some b \<Rightarrow> Some b | None \<Rightarrow> blob item),
                       queueIndex := (case u_queueIndex updates of Some q \<Rightarrow> q | None \<Rightarrow> queueIndex item),
                       metadata := metadata item ++ m\<rparr>"
  have "metadata ?item' = metadata item ++ m" by simp
  moreover have "\<forall>k. k \<notin> dom m \<longrightarrow> metadata ?item' k = metadata item k"
    by (simp add: map_add_dom_app_simps)
  moreover have "\<forall>k \<in> dom m. metadata ?item' k = m k"
    by (simp add: map_add_dom_app_simps)
  ultimately show "\<exists>s' item'. updateItem i updates s = Inr s' \<and> getItem i s' = Some item' \<and>
         metadata item' = metadata item ++ m \<and>
         (\<forall>k. k \<notin> dom m \<longrightarrow> metadata item' k = metadata item k) \<and>
         (\<forall>k \<in> dom m. metadata item' k = m k)"
    using s' by blast
next
  assume h: "upsertItem b md options s = Inr (s2, r) \<and> \<not> inserted r \<and> mergeMetadata options = Some False"
  let ?byId = "case opt_id options of Some i \<Rightarrow> getItem i s | None \<Rightarrow> None"
  let ?found = "case ?byId of
                     Some item \<Rightarrow> Inr (Some item)
                   | None \<Rightarrow> (case matchBy options of
                                Some (fieldNames, fieldValues) \<Rightarrow> findItemByMetadata fieldNames fieldValues s
                              | None \<Rightarrow> Inr None)"
  from h obtain existing where f: "?found = Inr (Some existing)"
    by (cases ?found rule: sum.exhaust[case_product option.exhaust, simplified])
       (auto simp: upsertItem_def Let_def split: sum.splits option.splits prod.splits)
  let ?upd = "\<lparr>u_blob = (if updateBlob options \<noteq> Some False then Some b else None),
               u_queueIndex = opt_queueIndex options, u_metadata = Some md\<rparr>"
  from h f have u: "updateItem (item_id existing) ?upd s = Inr s2" and r: "res_id r = item_id existing"
    by (auto simp: upsertItem_def Let_def split: sum.splits)
  from u obtain old where o: "getItem (item_id existing) s = Some old"
    by (auto simp: updateItem_def split: option.splits)
  from updateItem_result[OF o, of ?upd] u
  have "getItem (item_id existing) s2 =
      Some (old\<lparr>blob := (case u_blob ?upd of Some b \<Rightarrow> Some b | None \<Rightarrow> blob old),
                queueIndex := (case u_queueIndex ?upd of Some q \<Rightarrow> q | None \<Rightarrow> queueIndex old),
                metadata := metadata old ++ md\<rparr>)"
    by auto
  then show "\<exists>old new. getItem (res_id r) s = Some old \<and> getItem (res_id r) s2 = Some new \<and>
         metadata new = metadata old ++ md \<and>
         (\<forall>k. k \<notin> dom md \<longrightarrow> metadata new k = metadata old k)"
    using o r by (auto simp: map_add_dom_app_simps)
qed

lemma matchesAll_iff:
  "length fs = length vs \<Longrightarrow>
   matchesAll fs vs item \<longleftrightarrow> (\<forall>n < length fs. mget (metadata item) (fs ! n) = vs ! n)"
  by (auto simp: matchesAll_def list_all_length)






theorem updateItem_merges_metadata_witness:
  "(getItem 1 s_two = Some \<lparr>item_id = 1, blob = Some ''A'', queueIndex = 0,
                        metadata = [''filename'' \<mapsto> VStr ''a'', ''title'' \<mapsto> VStr ''t'']\<rparr> \<and>
   u_metadata \<lparr>u_blob = None, u_queueIndex = None, u_metadata = Some [''filename'' \<mapsto> VStr ''z'']\<rparr>
      = Some [''filename'' \<mapsto> VStr ''z''] \<and>
   (\<exists>s' item'. updateItem 1 \<lparr>u_blob = None, u_queueIndex = None,
                              u_metadata = Some [''filename'' \<mapsto> VStr ''z'']\<rparr> s_two = Inr s' \<and>
       getItem 1 s' = Some item' \<and>
       metadata item' ''title'' = Some (VStr ''t'') \<and> metadata item' ''filename'' = Some (VStr ''z''))) \<and>
   (\<exists>s2 r. upsertItem ''C'' [''filename'' \<mapsto> VStr ''z''] opts_id1_matchb s_two = Inr (s2, r) \<and>
      \<not> inserted r \<and> mergeMetadata opts_id1_matchb = Some False \<and> res_id r = 1 \<and>
      (\<exists>new. getItem 1 s2 = Some new \<and> metadata new ''title'' = Some (VStr ''t'') \<and>
              metadata new ''filename'' = Some (VStr ''z'')))"
proof -
  let ?item = "\<lparr>item_id = 1, blob = Some ''A'', queueIndex = 0,
                        metadata = [''filename'' \<mapsto> VStr ''a'', ''title'' \<mapsto> VStr ''t'']\<rparr>"
  let ?u = "\<lparr>u_blob = None, u_queueIndex = None, u_metadata = Some [''filename'' \<mapsto> VStr ''z'']\<rparr>"
  have h: "getItem 1 s_two = Some ?item \<and> u_metadata ?u = Some [''filename'' \<mapsto> VStr ''z'']"
    by (simp add: s_two_def getItem_def)
  from updateItem_merges_metadata[of 1 s_two ?item ?u "[''filename'' \<mapsto> VStr ''z'']"] h
  obtain s' item' where r: "updateItem 1 ?u s_two = Inr s'" "getItem 1 s' = Some item'"
      "\<forall>k. k \<notin> dom [''filename'' \<mapsto> VStr ''z''] \<longrightarrow> metadata item' k = metadata ?item k"
      "\<forall>k \<in> dom [''filename'' \<mapsto> VStr ''z'']. metadata item' k = [''filename'' \<mapsto> VStr ''z''] k"
    by blast
  from r(3) have "metadata item' ''title'' = Some (VStr ''t'')" by simp
  moreover from r(4) have "metadata item' ''filename'' = Some (VStr ''z'')" by simp
  ultimately have part1: "\<exists>s' item'. updateItem 1 ?u s_two = Inr s' \<and>
       getItem 1 s' = Some item' \<and>
       metadata item' ''title'' = Some (VStr ''t'') \<and> metadata item' ''filename'' = Some (VStr ''z'')"
    using r(1,2) by blast
  obtain s2 r2 where u: "upsertItem ''C'' [''filename'' \<mapsto> VStr ''z''] opts_id1_matchb s_two = Inr (s2, r2)"
     and r2: "\<not> inserted r2" "res_id r2 = 1"
    by (simp add: upsertItem_def opts_id1_matchb_def s_two_def getItem_def updateItem_def Let_def)
  have m: "mergeMetadata opts_id1_matchb = Some False" by (simp add: opts_id1_matchb_def)
  have g: "getItem 1 s_two = Some \<lparr>item_id = 1, blob = Some ''A'', queueIndex = 0,
                        metadata = [''filename'' \<mapsto> VStr ''a'', ''title'' \<mapsto> VStr ''t'']\<rparr>"
    by (simp add: s_two_def getItem_def)
  from updateItem_merges_metadata[of 0 s_two "getAll s_two ! 0" "\<lparr>u_blob = None, u_queueIndex = None, u_metadata = None\<rparr>" Map.empty "''C''" "[''filename'' \<mapsto> VStr ''z'']" opts_id1_matchb s2 r2]
    u r2 m
  obtain old new where o: "getItem (res_id r2) s_two = Some old" "getItem (res_id r2) s2 = Some new"
     "metadata new = metadata old ++ [''filename'' \<mapsto> VStr ''z'']"
    by blast
  from o(1) g r2(2) have "old = \<lparr>item_id = 1, blob = Some ''A'', queueIndex = 0,
                        metadata = [''filename'' \<mapsto> VStr ''a'', ''title'' \<mapsto> VStr ''t'']\<rparr>" by simp
  with o(3) have "metadata new ''title'' = Some (VStr ''t'') \<and> metadata new ''filename'' = Some (VStr ''z'')"
    by simp
  with u r2 m o(2) have part2: "\<exists>s2 r. upsertItem ''C'' [''filename'' \<mapsto> VStr ''z''] opts_id1_matchb s_two = Inr (s2, r) \<and>
      \<not> inserted r \<and> mergeMetadata opts_id1_matchb = Some False \<and> res_id r = 1 \<and>
      (\<exists>new. getItem 1 s2 = Some new \<and> metadata new ''title'' = Some (VStr ''t'') \<and>
              metadata new ''filename'' = Some (VStr ''z''))" by auto
  from h part1 part2 show ?thesis by blast
qed

section \<open>Buffer scheduler: threshold and cycle\<close>

lemma hasMore_snd:
  "snd (hasMoreSegments s st) \<longleftrightarrow>
     length_store s \<noteq> 0 \<and> (onRollEndCallback st \<longrightarrow> bufferedQueueIndex st < length_store s)"
  by (simp add: hasMoreSegments_def Let_def)







lemma deliver_step:
  assumes "attached st" "items s \<noteq> []" "\<forall>x \<in> set (items s). blob x \<noteq> None"
  shows "\<exists>st1 bytes.
      queueNextSegment b s (releaseGate st) =
        (st1, Enqueue (createSegmentFromItem
                 (getAll s ! (bufferedQueueIndex st mod length_store s)) bytes) #
              (if onRollEndCallback st \<and> Suc (bufferedQueueIndex st) mod length_store s = 0
               then [RollEnd] else [])) \<and>
      blob (getAll s ! (bufferedQueueIndex st mod length_store s)) = Some bytes \<and>
      attached st1 \<and> bufferedQueueIndex st1 = Suc (bufferedQueueIndex st) \<and>
      onRollEndCallback st1 = onRollEndCallback st"
proof -
  let ?its = "getAll s"
  let ?item = "?its ! (bufferedQueueIndex st mod length_store s)"
  have l: "length ?its = length_store s" by (simp add: getAll_def length_store_def)
  have ne: "?its \<noteq> []" using assms(2) l by (auto simp: length_store_def)
  then have "bufferedQueueIndex st mod length_store s < length ?its"
    unfolding l[symmetric] by simp
  then have "?item \<in> set ?its" by (rule nth_mem)
  then have "?item \<in> set (items s)" by (simp add: getAll_def)
  with assms(3) obtain bytes where bl: "blob ?item = Some bytes" by auto
  show ?thesis
    using assms(1) ne bl l
    by (auto simp: queueNextSegment_def releaseGate_def Let_def)
qed

lemma deliveries_spec:
  assumes "attached st" "items s \<noteq> []" "\<forall>x \<in> set (items s). blob x \<noteq> None"
  shows "\<exists>st' ess. deliveries s bs st = (st', ess) \<and>
      attached st' \<and> onRollEndCallback st' = onRollEndCallback st \<and>
      bufferedQueueIndex st' = bufferedQueueIndex st + length bs \<and>
      length ess = length bs \<and>
      (\<forall>i < length bs. \<exists>bytes.
          blob (getAll s ! ((bufferedQueueIndex st + i) mod length_store s)) = Some bytes \<and>
          ess ! i = Enqueue (createSegmentFromItem
                       (getAll s ! ((bufferedQueueIndex st + i) mod length_store s)) bytes) #
                    (if onRollEndCallback st \<and> Suc (bufferedQueueIndex st + i) mod length_store s = 0
                     then [RollEnd] else []))"
  using assms(1)
proof (induction bs arbitrary: st)
  case Nil
  then show ?case by simp
next
  case (Cons b bs)
  from deliver_step[OF Cons.prems assms(2,3), of b] obtain st1 bytes where
    q: "queueNextSegment b s (releaseGate st) =
        (st1, Enqueue (createSegmentFromItem
                 (getAll s ! (bufferedQueueIndex st mod length_store s)) bytes) #
              (if onRollEndCallback st \<and> Suc (bufferedQueueIndex st) mod length_store s = 0
               then [RollEnd] else []))"
    and bl: "blob (getAll s ! (bufferedQueueIndex st mod length_store s)) = Some bytes"
    and a1: "attached st1" and c1: "bufferedQueueIndex st1 = Suc (bufferedQueueIndex st)"
    and r1: "onRollEndCallback st1 = onRollEndCallback st"
    by blast
  from Cons.IH[OF a1] obtain st' ess where
    d: "deliveries s bs st1 = (st', ess)" "attached st'"
       "onRollEndCallback st' = onRollEndCallback st1"
       "bufferedQueueIndex st' = bufferedQueueIndex st1 + length bs"
       "length ess = length bs"
    and rest: "\<forall>i < length bs. \<exists>bytes.
          blob (getAll s ! ((bufferedQueueIndex st1 + i) mod length_store s)) = Some bytes \<and>
          ess ! i = Enqueue (createSegmentFromItem
                       (getAll s ! ((bufferedQueueIndex st1 + i) mod length_store s)) bytes) #
                    (if onRollEndCallback st1 \<and> Suc (bufferedQueueIndex st1 + i) mod length_store s = 0
                     then [RollEnd] else [])"
    by blast
  let ?e0 = "Enqueue (createSegmentFromItem
                 (getAll s ! (bufferedQueueIndex st mod length_store s)) bytes) #
              (if onRollEndCallback st \<and> Suc (bufferedQueueIndex st) mod length_store s = 0
               then [RollEnd] else [])"
  have run: "deliveries s (b # bs) st = (st', ?e0 # ess)"
    using q d(1) by simp
  have each: "\<exists>bytes.
          blob (getAll s ! ((bufferedQueueIndex st + i) mod length_store s)) = Some bytes \<and>
          (?e0 # ess) ! i = Enqueue (createSegmentFromItem
                       (getAll s ! ((bufferedQueueIndex st + i) mod length_store s)) bytes) #
                    (if onRollEndCallback st \<and> Suc (bufferedQueueIndex st + i) mod length_store s = 0
                     then [RollEnd] else [])"
    if i: "i < length (b # bs)" for i
  proof (cases i)
    case 0
    with bl show ?thesis by simp
  next
    case (Suc j)
    with i have "j < length bs" by simp
    with rest have "\<exists>bytes.
          blob (getAll s ! ((bufferedQueueIndex st1 + j) mod length_store s)) = Some bytes \<and>
          ess ! j = Enqueue (createSegmentFromItem
                       (getAll s ! ((bufferedQueueIndex st1 + j) mod length_store s)) bytes) #
                    (if onRollEndCallback st1 \<and> Suc (bufferedQueueIndex st1 + j) mod length_store s = 0
                     then [RollEnd] else [])"
      by blast
    then show ?thesis unfolding Suc c1 r1 by simp
  qed
  show ?case
    apply (rule exI[where x = st'], rule exI[where x = "?e0 # ess"])
    using run d(2,3,4,5) each c1 r1 by simp
qed

text \<open>
  C3. For a store of \<open>k > 0\<close> rows that all carry a blob and a session whose cursor is at
  \<open>0\<close>: after \<open>n\<close> deliveries the cursor is \<open>n\<close>; delivery number \<open>i + 1\<close> enqueues the
  segment of row \<open>i mod k\<close> and fires the end-of-roll callback exactly when one is
  registered and \<open>i + 1\<close> is a multiple of \<open>k\<close>; and after \<open>n\<close> deliveries there is more
  to deliver exactly when no callback is registered or \<open>n < k\<close>. So with a callback the
  callback fires once per \<open>k\<close> deliveries and has-more is false right after the \<open>k\<close>-th,
  and without one has-more never becomes false and the rows are taken modulo \<open>k\<close>.
\<close>

theorem cycle_detection:
  assumes "attached st" "bufferedQueueIndex st = 0" "items s \<noteq> []"
    and "\<forall>x \<in> set (items s). blob x \<noteq> None"
  shows "\<exists>st' ess. deliveries s bs st = (st', ess) \<and>
      bufferedQueueIndex st' = length bs \<and> length ess = length bs \<and>
      (\<forall>i < length bs. \<exists>bytes.
          blob (getAll s ! (i mod length_store s)) = Some bytes \<and>
          ess ! i = Enqueue (createSegmentFromItem (getAll s ! (i mod length_store s)) bytes) #
                    (if onRollEndCallback st \<and> Suc i mod length_store s = 0
                     then [RollEnd] else [])) \<and>
      (snd (hasMoreSegments s st') \<longleftrightarrow> (onRollEndCallback st \<longrightarrow> length bs < length_store s))"
proof -
  from deliveries_spec[OF assms(1,3,4), of bs] obtain st' ess where
    d: "deliveries s bs st = (st', ess)" "onRollEndCallback st' = onRollEndCallback st"
       "bufferedQueueIndex st' = bufferedQueueIndex st + length bs" "length ess = length bs"
    and each: "\<forall>i < length bs. \<exists>bytes.
          blob (getAll s ! ((bufferedQueueIndex st + i) mod length_store s)) = Some bytes \<and>
          ess ! i = Enqueue (createSegmentFromItem
                       (getAll s ! ((bufferedQueueIndex st + i) mod length_store s)) bytes) #
                    (if onRollEndCallback st \<and> Suc (bufferedQueueIndex st + i) mod length_store s = 0
                     then [RollEnd] else [])"
    by blast
  have k: "length_store s \<noteq> 0" using assms(3) by (simp add: length_store_def)
  have hm: "snd (hasMoreSegments s st') \<longleftrightarrow> (onRollEndCallback st \<longrightarrow> length bs < length_store s)"
    using k d(2,3) assms(2) by (simp add: hasMore_snd)
  show ?thesis
    apply (rule exI[where x = st'], rule exI[where x = ess])
    using d each hm assms(2) by simp
qed

theorem cycle_detection_witness:
  "attached (roll0\<lparr>onRollEndCallback := True\<rparr>) \<and>
   bufferedQueueIndex (roll0\<lparr>onRollEndCallback := True\<rparr>) = 0 \<and>
   items s_two \<noteq> [] \<and> length_store s_two = 2 \<and>
   map blob (items s_two) = [Some ''A'', Some ''B''] \<and>
   map (\<lambda>es. RollEnd \<in> set es) (snd (deliveries s_two [0, 1, 2, 3] (roll0\<lparr>onRollEndCallback := True\<rparr>)))
     = [False, True, False, True] \<and>
   snd (hasMoreSegments s_two (fst (deliveries s_two [0] (roll0\<lparr>onRollEndCallback := True\<rparr>)))) \<and>
   \<not> snd (hasMoreSegments s_two (fst (deliveries s_two [0, 1] (roll0\<lparr>onRollEndCallback := True\<rparr>)))) \<and>
   (\<exists>st' ess. deliveries s_two [0, 1, 2] (roll0\<lparr>onRollEndCallback := True\<rparr>) = (st', ess) \<and>
      bufferedQueueIndex st' = length [0, 1, 2 :: rat] \<and> length ess = length [0, 1, 2 :: rat] \<and>
      (\<forall>i < length [0, 1, 2 :: rat]. \<exists>bytes.
          blob (getAll s_two ! (i mod length_store s_two)) = Some bytes \<and>
          ess ! i = Enqueue (createSegmentFromItem (getAll s_two ! (i mod length_store s_two)) bytes) #
                    (if onRollEndCallback (roll0\<lparr>onRollEndCallback := True\<rparr>) \<and>
                        Suc i mod length_store s_two = 0
                     then [RollEnd] else [])) \<and>
      (snd (hasMoreSegments s_two st') \<longleftrightarrow>
         (onRollEndCallback (roll0\<lparr>onRollEndCallback := True\<rparr>)
            \<longrightarrow> length [0, 1, 2 :: rat] < length_store s_two))) \<and>
   (\<exists>st' ess. deliveries s_two [0, 1, 2] roll0 = (st', ess) \<and>
      bufferedQueueIndex st' = length [0, 1, 2 :: rat] \<and> length ess = length [0, 1, 2 :: rat] \<and>
      (\<forall>i < length [0, 1, 2 :: rat]. \<exists>bytes.
          blob (getAll s_two ! (i mod length_store s_two)) = Some bytes \<and>
          ess ! i = Enqueue (createSegmentFromItem (getAll s_two ! (i mod length_store s_two)) bytes) #
                    (if onRollEndCallback roll0 \<and> Suc i mod length_store s_two = 0
                     then [RollEnd] else [])) \<and>
      (snd (hasMoreSegments s_two st') \<longleftrightarrow>
         (onRollEndCallback roll0 \<longrightarrow> length [0, 1, 2 :: rat] < length_store s_two)))"
proof -
  let ?st = "roll0\<lparr>onRollEndCallback := True\<rparr>"
  have a: "attached ?st" "attached roll0" by (simp_all add: roll0_def)
  have c: "bufferedQueueIndex ?st = 0" "bufferedQueueIndex roll0 = 0" by (simp_all add: roll0_def)
  have n: "items s_two \<noteq> []" by (simp add: s_two_def)
  have bl: "\<forall>x \<in> set (items s_two). blob x \<noteq> None" by (simp add: s_two_def)
  have k: "length_store s_two = 2" by (simp add: s_two_def length_store_def)
  have ev: "map (\<lambda>es. RollEnd \<in> set es) (snd (deliveries s_two [0, 1, 2, 3] ?st))
     = [False, True, False, True]"
    by (simp add: roll0_def s_two_def queueNextSegment_def releaseGate_def getAll_def Let_def mod_Suc)
  have h1: "snd (hasMoreSegments s_two (fst (deliveries s_two [0] ?st)))"
    by (simp add: roll0_def s_two_def queueNextSegment_def releaseGate_def getAll_def Let_def
        hasMoreSegments_def length_store_def mod_Suc)
  have h2: "\<not> snd (hasMoreSegments s_two (fst (deliveries s_two [0, 1] ?st)))"
    by (simp add: roll0_def s_two_def queueNextSegment_def releaseGate_def getAll_def Let_def
        hasMoreSegments_def length_store_def mod_Suc)
  note t1 = cycle_detection[OF a(1) c(1) n bl, of "[0, 1, 2]"]
  note t2 = cycle_detection[OF a(2) c(2) n bl, of "[0, 1, 2]"]
  have bs: "map blob (items s_two) = [Some ''A'', Some ''B'']" by (simp add: s_two_def)
  from a(1) c(1) n k bs ev h1 h2 t1 t2 show ?thesis by blast
qed

section \<open>Ordering reconciliation\<close>

lemma getItem_member:
  "distinct (map item_id (items s)) \<Longrightarrow> x \<in> set (items s) \<Longrightarrow> getItem (item_id x) s = Some x"
  using find_map_id[of "items s" x "\<lambda>y. y"] by (simp add: getItem_def)

lemma foldl_upd_map_of:
  "foldl (\<lambda>m (i, r). m(i \<mapsto> r)) m0 xs = m0 ++ map_of (rev xs)"
proof (induction xs arbitrary: m0)
  case Nil
  then show ?case by simp
next
  case (Cons x xs)
  obtain i r where x: "x = (i, r)" by (cases x)
  have "foldl (\<lambda>m (i, r). m(i \<mapsto> r)) m0 (x # xs)
        = foldl (\<lambda>m (i, r). m(i \<mapsto> r)) (m0(i \<mapsto> r)) xs"
    by (simp add: x)
  also have "\<dots> = m0(i \<mapsto> r) ++ map_of (rev xs)" by (rule Cons.IH)
  also have "\<dots> = m0 ++ ([i \<mapsto> r] ++ map_of (rev xs))"
    by (rule ext) (auto simp: map_add_def split: option.splits)
  also have "\<dots> = m0 ++ map_of (rev (x # xs))" by (simp add: x)
  finally show ?case .
qed

lemma map_filter_cong_set:
  "(\<And>x. x \<in> set xs \<Longrightarrow> f x = g x) \<Longrightarrow> List.map_filter f xs = List.map_filter g xs"
  by (induction xs) (simp_all add: List.map_filter_simps split: option.splits)

lemma map_fst_build:
  "map fst (buildOrderingFromEntries entries its) =
   map item_id (filter (\<lambda>item. desiredOrder entries item \<noteq> None) its)"
  by (induction its) (auto simp: buildOrderingFromEntries_def List.map_filter_simps split: option.splits)

lemma set_build:
  "set (buildOrderingFromEntries entries its) =
   {(item_id item, r) | item r. item \<in> set its \<and> desiredOrder entries item = Some r}"
  by (induction its) (auto simp: buildOrderingFromEntries_def List.map_filter_simps split: option.splits)

lemma orderMap_desiredOrder:
  assumes d: "distinct (map item_id its)" and x: "x \<in> set its"
  shows "foldl (\<lambda>m (i, r). m(i \<mapsto> r)) Map.empty (buildOrderingFromEntries entries its) (item_id x)
         = desiredOrder entries x"
proof -
  let ?od = "buildOrderingFromEntries entries its"
  have inj: "inj_on item_id (set its)" using d by (simp add: distinct_map)
  have "distinct (map item_id (filter (\<lambda>item. desiredOrder entries item \<noteq> None) its))"
    using d by (rule distinct_map_filter)
  then have dk: "distinct (map fst (rev ?od))" by (simp add: map_fst_build rev_map[symmetric])
  have iff: "map_of (rev ?od) (item_id x) = Some r \<longleftrightarrow> desiredOrder entries x = Some r" for r
  proof -
    have "map_of (rev ?od) (item_id x) = Some r \<longleftrightarrow> (item_id x, r) \<in> set (rev ?od)"
      using dk by (rule map_of_eq_Some_iff)
    also have "\<dots> \<longleftrightarrow> (\<exists>item. item \<in> set its \<and> item_id item = item_id x \<and> desiredOrder entries item = Some r)"
      by (simp add: set_build) metis
    also have "\<dots> \<longleftrightarrow> desiredOrder entries x = Some r"
      using inj x by (auto dest: inj_onD)
    finally show ?thesis .
  qed
  have "map_of (rev ?od) (item_id x) = desiredOrder entries x"
  proof (cases "desiredOrder entries x")
    case None
    with iff show ?thesis by (cases "map_of (rev ?od) (item_id x)") auto
  next
    case (Some r)
    with iff show ?thesis by simp
  qed
  then show ?thesis by (simp add: foldl_upd_map_of)
qed

lemma batch_fold:
  assumes "distinct (map fst ups)" "\<forall>u \<in> set ups. getItem (fst u) s \<noteq> None"
  shows "map item_id (items (fst (batchUpdateQueueIndices ups s))) = map item_id (items s) \<and>
         keyGenerator (fst (batchUpdateQueueIndices ups s)) = keyGenerator s \<and>
         (\<forall>j. getItem j (fst (batchUpdateQueueIndices ups s)) =
              (case map_of ups j of
                 None \<Rightarrow> getItem j s
               | Some q \<Rightarrow> map_option (\<lambda>x. x\<lparr>queueIndex := q\<rparr>) (getItem j s)))"
  using assms
proof (induction ups rule: rev_induct)
  case Nil
  then show ?case by (simp add: batchUpdateQueueIndices_def)
next
  case (snoc u ups)
  obtain i q where u: "u = (i, q)" by (cases u)
  let ?step = "\<lambda>acc (i, q). case getItem i s of
                               None \<Rightarrow> acc
                             | Some item \<Rightarrow> acc\<lparr>items := put (item\<lparr>queueIndex := q\<rparr>) (items acc)\<rparr>"
  let ?acc = "fst (batchUpdateQueueIndices ups s)"
  have d: "distinct (map fst ups)" and ni: "i \<notin> fst ` set ups"
    using snoc.prems(1) u by auto
  have ex: "\<forall>u \<in> set ups. getItem (fst u) s \<noteq> None" using snoc.prems(2) by simp
  from snoc.IH[OF d ex] have
    ids: "map item_id (items ?acc) = map item_id (items s)"
    and kg: "keyGenerator ?acc = keyGenerator s"
    and gi: "\<And>j. getItem j ?acc =
              (case map_of ups j of
                 None \<Rightarrow> getItem j s
               | Some q \<Rightarrow> map_option (\<lambda>x. x\<lparr>queueIndex := q\<rparr>) (getItem j s))"
    by blast+
  from snoc.prems(2) u obtain item where it: "getItem i s = Some item" by auto
  then have iid: "item_id item = i" and "i \<in> item_id ` set (items s)"
    using getItem_SomeD getItem_in_ids by blast+
  then have "i \<in> set (map item_id (items s))" by simp
  then have "i \<in> set (map item_id (items ?acc))" unfolding ids .
  then have mem: "item_id (item\<lparr>queueIndex := q\<rparr>) \<in> item_id ` set (items ?acc)" using iid by simp
  have acc': "fst (batchUpdateQueueIndices (ups @ [u]) s)
               = ?acc\<lparr>items := put (item\<lparr>queueIndex := q\<rparr>) (items ?acc)\<rparr>"
    by (simp add: batchUpdateQueueIndices_def u it)
  have 1: "map item_id (items (fst (batchUpdateQueueIndices (ups @ [u]) s))) = map item_id (items s)"
    unfolding acc' using map_id_put_existing[OF mem] ids by simp
  have 2: "keyGenerator (fst (batchUpdateQueueIndices (ups @ [u]) s)) = keyGenerator s"
    unfolding acc' using kg by simp
  have mo: "map_of ups i = None" using ni by (simp add: map_of_eq_None_iff)
  have 3: "getItem j (fst (batchUpdateQueueIndices (ups @ [u]) s)) =
              (case map_of (ups @ [u]) j of
                 None \<Rightarrow> getItem j s
               | Some q \<Rightarrow> map_option (\<lambda>x. x\<lparr>queueIndex := q\<rparr>) (getItem j s))" for j
  proof (cases "j = i")
    case True
    have "getItem j (fst (batchUpdateQueueIndices (ups @ [u]) s)) = Some (item\<lparr>queueIndex := q\<rparr>)"
      unfolding acc' using getItem_put[OF mem, of j] True iid by (simp add: getItem_def)
    moreover have "map_of (ups @ [u]) j = Some q" using True mo u by (simp add: map_add_def)
    ultimately show ?thesis using True it by simp
  next
    case False
    have "getItem j (fst (batchUpdateQueueIndices (ups @ [u]) s)) = getItem j ?acc"
      unfolding acc' using getItem_put[OF mem, of j] False iid by (simp add: getItem_def)
    moreover have "map_of (ups @ [u]) j = map_of ups j"
      using False u by (simp add: map_add_def split: option.splits)
    ultimately show ?thesis using gi[of j] by simp
  qed
  from 1 2 3 show ?case by blast
qed

lemma batch_no_error:
  assumes "\<forall>u \<in> set ups. getItem (fst u) s \<noteq> None"
  shows "snd (batchUpdateQueueIndices ups s) = None"
proof -
  have "filter (\<lambda>(i, q). getItem i s = None) ups = []"
    using assms by (auto simp: filter_empty_conv)
  then show ?thesis by (simp add: batchUpdateQueueIndices_def)
qed

lemma map_nth_fun: "length xs = n \<Longrightarrow> map (\<lambda>i. f (xs ! i)) [0 ..< n] = map f xs"
  by (rule nth_equalityI) auto

lemma map_fst_withOrder:
  "map fst (withOrder entries s) = filter (\<lambda>item. desiredOrder entries item \<noteq> None) (getAll s)"
proof -
  have "map fst (List.map_filter (\<lambda>item. map_option (\<lambda>r. (item, r)) (desiredOrder entries item)) xs)
        = filter (\<lambda>item. desiredOrder entries item \<noteq> None) xs" for xs
    by (induction xs) (auto simp: List.map_filter_simps split: option.splits)
  then show ?thesis by (simp add: withOrder_def)
qed

lemma length_build_withOrder:
  "length (buildOrderingFromEntries entries (getAll s)) = length (withOrder entries s)"
proof -
  have "length (List.map_filter (\<lambda>item. map_option (\<lambda>r. (item_id item, r)) (desiredOrder entries item)) xs)
        = length (List.map_filter (\<lambda>item. map_option (\<lambda>r. (item, r)) (desiredOrder entries item)) xs)" for xs
    by (induction xs) (auto simp: List.map_filter_simps split: option.splits)
  then show ?thesis by (simp add: withOrder_def buildOrderingFromEntries_def)
qed

lemma mset_partition_order:
  "mset (map fst (sort_key snd (withOrder entries s)) @ withoutOrder entries s) = mset (items s)"
proof -
  have "mset (map fst (sort_key snd (withOrder entries s))) = mset (map fst (withOrder entries s))"
    by simp
  then have "mset (map fst (sort_key snd (withOrder entries s)) @ withoutOrder entries s)
      = mset (filter (\<lambda>item. desiredOrder entries item \<noteq> None) (getAll s))
        + mset (filter (\<lambda>item. \<not> desiredOrder entries item \<noteq> None) (getAll s))"
    by (simp add: map_fst_withOrder withoutOrder_def)
  also have "\<dots> = mset (getAll s)" by (simp only: mset_filter multiset_partition[symmetric])
  also have "\<dots> = mset (items s)" by (simp add: getAll_def)
  finally show ?thesis .
qed

lemma distinct_ids_getAll:
  "distinct (map item_id (items s)) \<Longrightarrow> distinct (map item_id (getAll s))"
proof -
  assume d: "distinct (map item_id (items s))"
  have m: "mset (map item_id (getAll s)) = mset (map item_id (items s))" by (simp add: getAll_def)
  from mset_eq_imp_distinct_iff[OF m] d show ?thesis by blast
qed

lemma map_fst_finalOrdering:
  "map fst (finalOrdering entries s) =
   map item_id (map fst (sort_key snd (withOrder entries s)) @ withoutOrder entries s)"
proof -
  let ?sorted = "sort_key snd (withOrder entries s)" and ?rest = "withoutOrder entries s"
  have a: "map (\<lambda>i. item_id (fst (?sorted ! i))) [0 ..< length ?sorted]
           = map (\<lambda>x. item_id (fst x)) ?sorted"
    by (rule map_nth_fun) (rule refl)
  have b: "map (\<lambda>i. item_id (?rest ! i)) [0 ..< length ?rest] = map item_id ?rest"
    by (rule map_nth_fun) (rule refl)
  have "map fst (finalOrdering entries s) =
        map (\<lambda>i. item_id (fst (?sorted ! i))) [0 ..< length ?sorted] @
        map (\<lambda>i. item_id (?rest ! i)) [0 ..< length ?rest]"
    unfolding finalOrdering_def Let_def by (simp only: map_append map_map comp_def fst_conv)
  then show ?thesis unfolding a b by (simp only: map_append map_map comp_def)
qed

lemma updateOrdering_unfold:
  assumes d: "distinct (map item_id (items s))" and k: "withOrder entries s \<noteq> []"
  shows "updateOrdering entries s =
     (case batchUpdateQueueIndices (finalOrdering entries s) s of
        (s', None) \<Rightarrow> (s', Inr (length (withOrder entries s)))
      | (s', Some e) \<Rightarrow> (s', Inl e))"
proof -
  let ?its = "getAll s"
  let ?od = "buildOrderingFromEntries entries ?its"
  let ?om = "foldl (\<lambda>m (i, r). m(i \<mapsto> r)) Map.empty ?od"
  have di: "distinct (map item_id ?its)" using d by (rule distinct_ids_getAll)
  have om: "?om (item_id x) = desiredOrder entries x" if "x \<in> set ?its" for x
    using di that by (rule orderMap_desiredOrder)
  have ne: "?its \<noteq> []"
  proof
    assume "?its = []"
    then have "withOrder entries s = []" by (simp add: withOrder_def List.map_filter_simps)
    with k show False by simp
  qed
  have odne: "?od \<noteq> []"
    using k length_build_withOrder[of entries s] by (metis length_0_conv)
  have w: "List.map_filter (\<lambda>item. map_option (\<lambda>r. (item, r)) (?om (item_id item))) ?its
           = withOrder entries s"
    unfolding withOrder_def by (rule map_filter_cong_set) (simp add: om)
  have wo: "filter (\<lambda>item. ?om (item_id item) = None) ?its = withoutOrder entries s"
    unfolding withoutOrder_def by (rule filter_cong[OF refl]) (simp add: om)
  have u1: "updateOrdering entries s = reorderAllItems ?od ?its s"
    using ne odne by (simp add: updateOrdering_def Let_def)
  have u2: "reorderAllItems ?od ?its s =
     (case batchUpdateQueueIndices (finalOrdering entries s) s of
        (s', None) \<Rightarrow> (s', Inr (length (withOrder entries s)))
      | (s', Some e) \<Rightarrow> (s', Inl e))"
    unfolding reorderAllItems_def Let_def w wo finalOrdering_def
    by (simp only: ne if_False length_sort)
  from u1 u2 show ?thesis by simp
qed

lemma updateOrdering_nothing:
  assumes "withOrder entries s = []"
  shows "updateOrdering entries s = (s, Inr 0)"
proof -
  have "length (buildOrderingFromEntries entries (getAll s)) = 0"
    using assms length_build_withOrder[of entries s] by simp
  then have "buildOrderingFromEntries entries (getAll s) = []" by simp
  then show ?thesis by (simp add: updateOrdering_def Let_def)
qed

lemma resolve_by_filename:
  "mget md ''filename'' = VStr f \<Longrightarrow> f \<noteq> [] \<Longrightarrow> entryByFilename entries f = Some e \<Longrightarrow>
   resolveEntry entries md = Some e"
  by (simp add: resolveEntry_def Let_def truthy_def)

lemma resolve_by_index:
  "nullish (mget md ''filename'') \<or>
     (\<exists>f. mget md ''filename'' = VStr f \<and> f \<noteq> [] \<and> entryByFilename entries f = None) \<Longrightarrow>
   mget md ''originalIndex'' = VNum n \<Longrightarrow> 0 \<le> n \<Longrightarrow> n < int (length entries) \<Longrightarrow>
   resolveEntry entries md = Some (entries ! nat n)"
  by (auto simp: resolveEntry_def Let_def truthy_def nullish_def entryByOriginalIndex_def)

text \<open>
  C5 (as the code has it). A row has a desired order when its metadata resolves to an entry
  of the ordering source (by a filename that is a non-empty string naming an entry's file;
  else, when the filename is absent, null or names no entry, by \<open>originalIndex\<close>) and that
  entry's order is finite. With \<open>k\<close> such rows in a store with distinct keys: when
  \<open>k = 0\<close> the store is left as it is and \<open>0\<close> is returned; when \<open>k > 0\<close> the rows with an
  order, sorted by it (stably, from the queue order), take positions \<open>0 .. k - 1\<close>, the
  other rows follow at \<open>k, k + 1, ...\<close> in their queue order, all through one batch update
  that changes nothing but positions, and \<open>k\<close> is returned.
\<close>

theorem updateOrdering_contract:
  assumes "keys_ok s"
  shows "(withOrder entries s = [] \<longrightarrow> updateOrdering entries s = (s, Inr 0)) \<and>
    (withOrder entries s \<noteq> [] \<longrightarrow>
       (\<exists>s'. updateOrdering entries s = (s', Inr (length (withOrder entries s))) \<and>
          s' = fst (batchUpdateQueueIndices (finalOrdering entries s) s) \<and>
          (\<forall>i < length (withOrder entries s).
             getItem (item_id (fst (sort_key snd (withOrder entries s) ! i))) s' =
               Some ((fst (sort_key snd (withOrder entries s) ! i))\<lparr>queueIndex := int i\<rparr>)) \<and>
          (\<forall>j < length (withoutOrder entries s).
             getItem (item_id (withoutOrder entries s ! j)) s' =
               Some ((withoutOrder entries s ! j)
                       \<lparr>queueIndex := int (length (withOrder entries s)) + int j\<rparr>)) \<and>
          map item_id (items s') = map item_id (items s))) \<and>
    sorted (map snd (sort_key snd (withOrder entries s))) \<and>
    length (withOrder entries s) + length (withoutOrder entries s) = length_store s"
proof (intro conjI impI)
  assume "withOrder entries s = []"
  then show "updateOrdering entries s = (s, Inr 0)" by (rule updateOrdering_nothing)
next
  show "sorted (map snd (sort_key snd (withOrder entries s)))" by simp
next
  have "size (mset (map fst (sort_key snd (withOrder entries s)) @ withoutOrder entries s))
        = size (mset (items s))"
    by (simp only: mset_partition_order)
  then show "length (withOrder entries s) + length (withoutOrder entries s) = length_store s"
    by (simp add: length_store_def)
next
  assume k: "withOrder entries s \<noteq> []"
  let ?sorted = "sort_key snd (withOrder entries s)" and ?rest = "withoutOrder entries s"
  let ?A = "finalOrdering entries s"
  let ?s' = "fst (batchUpdateQueueIndices ?A s)"
  have d: "distinct (map item_id (items s))" using assms by (simp add: keys_ok_def)
  have ms: "mset (map fst ?sorted @ ?rest) = mset (items s)" by (rule mset_partition_order)
  have st: "set (map fst ?sorted @ ?rest) = set (items s)" using ms by (rule mset_eq_setD)
  have "mset (map item_id (map fst ?sorted @ ?rest)) = mset (map item_id (items s))"
    using ms by (metis mset_map)
  from mset_eq_imp_distinct_iff[OF this] d
  have dA: "distinct (map fst ?A)" unfolding map_fst_finalOrdering by blast
  have exA: "\<forall>u \<in> set ?A. getItem (fst u) s \<noteq> None"
  proof
    fix u assume "u \<in> set ?A"
    then have "fst u \<in> set (map fst ?A)" by simp
    then have "fst u \<in> item_id ` set (items s)"
      unfolding map_fst_finalOrdering using st by (metis set_map)
    then show "getItem (fst u) s \<noteq> None" by (auto simp: getItem_def find_None_iff)
  qed
  from batch_fold[OF dA exA] have
    ids: "map item_id (items ?s') = map item_id (items s)"
    and gi: "\<And>j. getItem j ?s' =
              (case map_of ?A j of
                 None \<Rightarrow> getItem j s
               | Some q \<Rightarrow> map_option (\<lambda>x. x\<lparr>queueIndex := q\<rparr>) (getItem j s))"
    by blast+
  have u: "updateOrdering entries s = (?s', Inr (length (withOrder entries s)))"
    using updateOrdering_unfold[OF d k] batch_no_error[OF exA]
    by (simp add: case_prod_beta)
  have A: "?A = map (\<lambda>i. (item_id (fst (?sorted ! i)), int i)) [0 ..< length ?sorted] @
      map (\<lambda>i. (item_id (?rest ! i), int (length ?sorted) + int i)) [0 ..< length ?rest]"
    by (simp only: finalOrdering_def Let_def)
  have r1: "getItem (item_id (fst (?sorted ! i))) ?s' = Some ((fst (?sorted ! i))\<lparr>queueIndex := int i\<rparr>)"
    if i: "i < length (withOrder entries s)" for i
  proof -
    have il: "i < length ?sorted" using i by simp
    then have "(item_id (fst (?sorted ! i)), int i) \<in> set ?A" unfolding A by auto
    with dA have m: "map_of ?A (item_id (fst (?sorted ! i))) = Some (int i)" by (rule map_of_is_SomeI)
    have "fst (?sorted ! i) \<in> set (map fst ?sorted)" using il by (metis length_map nth_map nth_mem)
    then have "fst (?sorted ! i) \<in> set (items s)" using st by auto
    with d have "getItem (item_id (fst (?sorted ! i))) s = Some (fst (?sorted ! i))"
      by (rule getItem_member)
    with gi[of "item_id (fst (?sorted ! i))"] m show ?thesis by simp
  qed
  have r2: "getItem (item_id (?rest ! j)) ?s' =
       Some ((?rest ! j)\<lparr>queueIndex := int (length (withOrder entries s)) + int j\<rparr>)"
    if j: "j < length ?rest" for j
  proof -
    have "(item_id (?rest ! j), int (length ?sorted) + int j) \<in> set ?A" unfolding A using j by auto
    with dA have m: "map_of ?A (item_id (?rest ! j)) = Some (int (length ?sorted) + int j)"
      by (rule map_of_is_SomeI)
    have "?rest ! j \<in> set ?rest" using j by (rule nth_mem)
    then have "?rest ! j \<in> set (items s)" using st by auto
    with d have "getItem (item_id (?rest ! j)) s = Some (?rest ! j)" by (rule getItem_member)
    with gi[of "item_id (?rest ! j)"] m show ?thesis by simp
  qed
  show "\<exists>s'. updateOrdering entries s = (s', Inr (length (withOrder entries s))) \<and>
          s' = fst (batchUpdateQueueIndices (finalOrdering entries s) s) \<and>
          (\<forall>i < length (withOrder entries s).
             getItem (item_id (fst (sort_key snd (withOrder entries s) ! i))) s' =
               Some ((fst (sort_key snd (withOrder entries s) ! i))\<lparr>queueIndex := int i\<rparr>)) \<and>
          (\<forall>j < length (withoutOrder entries s).
             getItem (item_id (withoutOrder entries s ! j)) s' =
               Some ((withoutOrder entries s ! j)
                       \<lparr>queueIndex := int (length (withOrder entries s)) + int j\<rparr>)) \<and>
          map item_id (items s') = map item_id (items s)"
    using u r1 r2 ids by blast
qed

theorem updateOrdering_contract_witness:
  "keys_ok s_four \<and> length (withOrder entries_ba s_four) = 2 \<and>
   map (\<lambda>p. (item_id (fst p), snd p)) (sort_key snd (withOrder entries_ba s_four)) = [(2, 0), (1, 1)] \<and>
   map item_id (withoutOrder entries_ba s_four) = [3, 4] \<and>
   snd (updateOrdering entries_ba s_four) = Inr 2 \<and>
   map (\<lambda>x. (item_id x, queueIndex x)) (items (fst (updateOrdering entries_ba s_four)))
     = [(1, 1), (2, 0), (3, 2), (4, 3)] \<and>
   (\<exists>s'. updateOrdering entries_ba s_four = (s', Inr (length (withOrder entries_ba s_four))) \<and>
          s' = fst (batchUpdateQueueIndices (finalOrdering entries_ba s_four) s_four) \<and>
          (\<forall>i < length (withOrder entries_ba s_four).
             getItem (item_id (fst (sort_key snd (withOrder entries_ba s_four) ! i))) s' =
               Some ((fst (sort_key snd (withOrder entries_ba s_four) ! i))\<lparr>queueIndex := int i\<rparr>)) \<and>
          (\<forall>j < length (withoutOrder entries_ba s_four).
             getItem (item_id (withoutOrder entries_ba s_four ! j)) s' =
               Some ((withoutOrder entries_ba s_four ! j)
                       \<lparr>queueIndex := int (length (withOrder entries_ba s_four)) + int j\<rparr>)) \<and>
          map item_id (items s') = map item_id (items s_four))"
proof -
  have k: "keys_ok s_four" by code_simp
  have l: "length (withOrder entries_ba s_four) = 2" by code_simp
  then have ne: "withOrder entries_ba s_four \<noteq> []" by auto
  have e1: "map (\<lambda>p. (item_id (fst p), snd p)) (sort_key snd (withOrder entries_ba s_four))
              = [(2, 0), (1, 1)]" by code_simp
  have e2: "map item_id (withoutOrder entries_ba s_four) = [3, 4]" by code_simp
  have e3: "snd (updateOrdering entries_ba s_four) = Inr 2" by code_simp
  have e4: "map (\<lambda>x. (item_id x, queueIndex x)) (items (fst (updateOrdering entries_ba s_four)))
     = [(1, 1), (2, 0), (3, 2), (4, 3)]" by code_simp
  from updateOrdering_contract[OF k, of entries_ba] ne
  have t: "\<exists>s'. updateOrdering entries_ba s_four = (s', Inr (length (withOrder entries_ba s_four))) \<and>
          s' = fst (batchUpdateQueueIndices (finalOrdering entries_ba s_four) s_four) \<and>
          (\<forall>i < length (withOrder entries_ba s_four).
             getItem (item_id (fst (sort_key snd (withOrder entries_ba s_four) ! i))) s' =
               Some ((fst (sort_key snd (withOrder entries_ba s_four) ! i))\<lparr>queueIndex := int i\<rparr>)) \<and>
          (\<forall>j < length (withoutOrder entries_ba s_four).
             getItem (item_id (withoutOrder entries_ba s_four ! j)) s' =
               Some ((withoutOrder entries_ba s_four ! j)
                       \<lparr>queueIndex := int (length (withOrder entries_ba s_four)) + int j\<rparr>)) \<and>
          map item_id (items s') = map item_id (items s_four)"
    by blast
  from k l e1 e2 e3 e4 t show ?thesis by blast
qed

text \<open>
  C5 as stated fails: when no row resolves, the rows without a match are not renumbered
  from \<open>k = 0\<close>; a row at position 5 stays at 5.
\<close>

theorem updateOrdering_no_match_counterexample:
  "map (\<lambda>x. (item_id x, queueIndex x)) (items s_gap) = [(1, 5)] \<and>
   length (withOrder [] s_gap) = 0 \<and> map item_id (withoutOrder [] s_gap) = [1] \<and>
   snd (updateOrdering [] s_gap) = Inr 0 \<and>
   map (\<lambda>x. (item_id x, queueIndex x)) (getAll (fst (updateOrdering [] s_gap))) = [(1, 5)]"
  by code_simp

end
